theory Spec2Isabelle
  imports Main
begin

section \<open>Closure.js: the private counter factory\<close>

text \<open>
  \<^verbatim>\<open>createCounter\<close> declares \<^verbatim>\<open>let count = 0\<close> and returns three methods closing over
  that variable. Every invocation allocates a new binding, so the script's memory is a
  list of bindings (\<open>cells\<close>) and a counter object is the index of its own binding.
  The console is the list of the lines printed so far: the label and the numbers after it.

  \<^verbatim>\<open>count\<close> is a JavaScript Number, an IEEE double. Starting from 0 and moving in steps
  of one it holds integers only, and is exact between \<open>-2^53\<close> and \<open>2^53\<close>; at
  \<open>2^53\<close> the sum \<^verbatim>\<open>count + 1\<close> is a tie that rounds back to \<open>2^53\<close> (round half to
  even), and symmetrically for \<^verbatim>\<open>count - 1\<close> at \<open>-2^53\<close>. \<open>num_inc\<close> and \<open>num_dec\<close>
  are \<^verbatim>\<open>count += 1\<close> and \<^verbatim>\<open>count -= 1\<close> on that range, which the counter never leaves
  (lemma \<open>run_ops_range\<close>).
\<close>

definition max_safe :: int where
  "max_safe = 2 ^ 53"

definition num_inc :: "int \<Rightarrow> int" where
  "num_inc x = (if x < max_safe then x + 1 else x)"

definition num_dec :: "int \<Rightarrow> int" where
  "num_dec x = (if - max_safe < x then x - 1 else x)"

record cstate =
  cells :: "int list"
  console :: "(string \<times> int list) list"

definition cinit :: cstate where
  "cinit = \<lparr>cells = [], console = []\<rparr>"

text \<open>\<^verbatim>\<open>createCounter()\<close>: a new binding holding 0; the result is the counter object.\<close>

definition createCounter :: "cstate \<Rightarrow> nat \<times> cstate" where
  "createCounter s = (length (cells s), s\<lparr>cells := cells s @ [0]\<rparr>)"

definition increment :: "nat \<Rightarrow> cstate \<Rightarrow> cstate" where
  "increment c s =
     (let v = num_inc (cells s ! c)
      in s\<lparr>cells := (cells s)[c := v], console := console s @ [(''Current count:'', [v])]\<rparr>)"

definition decrement :: "nat \<Rightarrow> cstate \<Rightarrow> cstate" where
  "decrement c s =
     (let v = num_dec (cells s ! c)
      in s\<lparr>cells := (cells s)[c := v], console := console s @ [(''Current count:'', [v])]\<rparr>)"

definition reset :: "nat \<Rightarrow> cstate \<Rightarrow> cstate" where
  "reset c s = s\<lparr>cells := (cells s)[c := 0], console := console s @ [(''Counter reset.'', [])]\<rparr>"

text \<open>A method call on a counter object, and a sequence of such calls in program order.\<close>

datatype cop = Increment | Decrement | Reset

fun call :: "nat \<Rightarrow> cop \<Rightarrow> cstate \<Rightarrow> cstate" where
  "call c Increment s = increment c s"
| "call c Decrement s = decrement c s"
| "call c Reset s = reset c s"

fun run_ops :: "nat \<Rightarrow> cop list \<Rightarrow> cstate \<Rightarrow> cstate" where
  "run_ops c [] s = s"
| "run_ops c (x # xs) s = run_ops c xs (call c x s)"

text \<open>The value of a counter: the content of its private binding.\<close>

definition count_of :: "nat \<Rightarrow> cstate \<Rightarrow> int" where
  "count_of c s = cells s ! c"

text \<open>Lines 29 to 33 of the script.\<close>

definition counter_demo :: cstate where
  "counter_demo =
     (let (counter, s) = createCounter cinit
      in reset counter (decrement counter (increment counter (increment counter s))))"

subsection \<open>Basic facts about the counter\<close>

lemma length_cells_call [simp]: "length (cells (call c x s)) = length (cells s)"
  by (cases x) (simp_all add: increment_def decrement_def reset_def Let_def)

lemma length_cells_run_ops [simp]: "length (cells (run_ops c xs s)) = length (cells s)"
  by (induction xs arbitrary: s) simp_all

lemma count_of_call_other:
  "b \<noteq> c \<Longrightarrow> count_of b (call c x s) = count_of b s"
  by (cases x) (simp_all add: count_of_def increment_def decrement_def reset_def Let_def)

lemma count_of_run_ops_other:
  "b \<noteq> c \<Longrightarrow> count_of b (run_ops c xs s) = count_of b s"
  by (induction xs arbitrary: s) (simp_all add: count_of_call_other)

lemma count_of_increment:
  "c < length (cells s) \<Longrightarrow> count_of c (increment c s) = num_inc (count_of c s)"
  by (simp add: count_of_def increment_def Let_def)

lemma count_of_decrement:
  "c < length (cells s) \<Longrightarrow> count_of c (decrement c s) = num_dec (count_of c s)"
  by (simp add: count_of_def decrement_def Let_def)

lemma count_of_reset:
  "c < length (cells s) \<Longrightarrow> count_of c (reset c s) = 0"
  by (simp add: count_of_def reset_def)

lemma createCounter_fresh:
  "createCounter s = (c, s') \<Longrightarrow> c < length (cells s') \<and> count_of c s' = 0"
  by (auto simp: createCounter_def count_of_def)

lemma createCounter_keeps:
  "createCounter s = (c, s') \<Longrightarrow> b < length (cells s) \<Longrightarrow> b \<noteq> c \<and> count_of b s' = count_of b s"
  by (auto simp: createCounter_def count_of_def nth_append)

text \<open>The net effect of a reset-free sequence: increments minus decrements.\<close>

definition net :: "cop list \<Rightarrow> int" where
  "net xs = int (count_list xs Increment) - int (count_list xs Decrement)"

lemma net_Cons:
  "net (x # xs) = (case x of Increment \<Rightarrow> 1 | Decrement \<Rightarrow> - 1 | Reset \<Rightarrow> 0) + net xs"
  by (cases x) (simp_all add: net_def)

lemma net_bounds: "- int (length xs) \<le> net xs \<and> net xs \<le> int (length xs)"
proof -
  have "count_list xs Increment \<le> length xs" "count_list xs Decrement \<le> length xs"
    by (rule count_le_length)+
  then show ?thesis by (simp add: net_def)
qed

lemma net_take_Suc:
  "net (take (Suc k) (x # xs))
     = (case x of Increment \<Rightarrow> 1 | Decrement \<Rightarrow> - 1 | Reset \<Rightarrow> 0) + net (take k xs)"
  by (simp add: net_Cons)

lemma run_ops_exact:
  "c < length (cells s) \<Longrightarrow> Reset \<notin> set xs \<Longrightarrow>
   \<forall>k\<le>length xs. \<bar>count_of c s + net (take k xs)\<bar> \<le> max_safe \<Longrightarrow>
   count_of c (run_ops c xs s) = count_of c s + net xs"
proof (induction xs arbitrary: s)
  case Nil
  then show ?case by (simp add: net_def)
next
  case (Cons x xs)
  have later: "\<bar>count_of c s + net (take (Suc k) (x # xs))\<bar> \<le> max_safe" if "k \<le> length xs" for k
    using Cons.prems(3) [rule_format, of "Suc k"] that by simp
  have first: "\<bar>count_of c s + net (take (Suc 0) (x # xs))\<bar> \<le> max_safe"
    using later [of 0] by simp
  show ?case
  proof (cases x)
    case Increment
    have v: "count_of c (increment c s) = count_of c s + 1"
      using Cons.prems(1) first Increment
      by (simp add: count_of_increment num_inc_def net_def)
    have "\<forall>k\<le>length xs. \<bar>count_of c (increment c s) + net (take k xs)\<bar> \<le> max_safe"
    proof (intro allI impI)
      fix k assume "k \<le> length xs"
      from later [OF this] Increment show "\<bar>count_of c (increment c s) + net (take k xs)\<bar> \<le> max_safe"
        by (simp add: v net_take_Suc del: take_Suc_Cons)
    qed
    then have "count_of c (run_ops c xs (increment c s)) = count_of c (increment c s) + net xs"
      using Cons.prems(1,2) by (intro Cons.IH) (simp_all add: increment_def Let_def)
    then show ?thesis using Increment v by (simp add: net_Cons)
  next
    case Decrement
    have v: "count_of c (decrement c s) = count_of c s - 1"
      using Cons.prems(1) first Decrement
      by (simp add: count_of_decrement num_dec_def net_def)
    have "\<forall>k\<le>length xs. \<bar>count_of c (decrement c s) + net (take k xs)\<bar> \<le> max_safe"
    proof (intro allI impI)
      fix k assume "k \<le> length xs"
      from later [OF this] Decrement show "\<bar>count_of c (decrement c s) + net (take k xs)\<bar> \<le> max_safe"
        by (simp add: v net_take_Suc del: take_Suc_Cons)
    qed
    then have "count_of c (run_ops c xs (decrement c s)) = count_of c (decrement c s) + net xs"
      using Cons.prems(1,2) by (intro Cons.IH) (simp_all add: decrement_def Let_def)
    then show ?thesis using Decrement v by (simp add: net_Cons)
  next
    case Reset
    then show ?thesis using Cons.prems by simp
  qed
qed

lemma short_sequences_safe:
  assumes "int (length xs) \<le> max_safe"
  shows "\<forall>k\<le>length xs. \<bar>net (take k xs)\<bar> \<le> max_safe"
proof (intro allI impI)
  fix k assume "k \<le> length xs"
  then have "int (length (take k xs)) \<le> max_safe" using assms by simp
  with net_bounds [of "take k xs"] show "\<bar>net (take k xs)\<bar> \<le> max_safe" by linarith
qed

lemma run_ops_range:
  "c < length (cells s) \<Longrightarrow> \<bar>count_of c s\<bar> \<le> max_safe \<Longrightarrow> \<bar>count_of c (run_ops c xs s)\<bar> \<le> max_safe"
proof (induction xs arbitrary: s)
  case Nil
  then show ?case by simp
next
  case (Cons x xs)
  have "\<bar>count_of c (call c x s)\<bar> \<le> max_safe"
    using Cons.prems
    by (cases x) (auto simp: count_of_increment count_of_decrement count_of_reset
        num_inc_def num_dec_def max_safe_def)
  then show ?case using Cons.prems Cons.IH [of "call c x s"] by simp
qed

text \<open>Increments alone stop counting at \<open>2^53\<close>.\<close>

lemma run_ops_increments:
  "c < length (cells s) \<Longrightarrow> 0 \<le> count_of c s \<Longrightarrow> count_of c s \<le> max_safe \<Longrightarrow>
   count_of c (run_ops c (replicate k Increment) s) = min (count_of c s + int k) max_safe"
proof (induction k arbitrary: s)
  case 0
  then show ?case by simp
next
  case (Suc k)
  have v: "count_of c (increment c s) = num_inc (count_of c s)"
    using Suc.prems by (simp add: count_of_increment)
  have "count_of c (run_ops c (replicate k Increment) (increment c s))
        = min (count_of c (increment c s) + int k) max_safe"
    using Suc.prems v by (intro Suc.IH) (simp_all add: increment_def Let_def num_inc_def)
  then show ?case using v Suc.prems by (auto simp: num_inc_def)
qed

lemma count_list_replicate:
  "count_list (replicate k x) y = (if x = y then k else 0)"
  by (induction k) auto

section \<open>The promise script: promises, timers and the event loop\<close>

text \<open>
  The script builds everything from \<^verbatim>\<open>fetchData\<close>, which wraps \<^verbatim>\<open>setTimeout\<close> in a
  \<^verbatim>\<open>new Promise\<close>, and from the built-in \<^verbatim>\<open>then\<close>, \<^verbatim>\<open>catch\<close>, \<^verbatim>\<open>Promise.all\<close>,
  \<^verbatim>\<open>Promise.race\<close> and \<^verbatim>\<open>Promise.allSettled\<close>. The built-ins are part of the language
  runtime, so the model contains a small runtime written after the ECMAScript algorithms:

  \<^item> a promise is \<open>Pending\<close>, \<open>Fulfilled v\<close> or \<open>Rejected v\<close> and, while pending, holds the
    reactions registered on it (\<^verbatim>\<open>PerformPromiseThen\<close>);
  \<^item> settling a pending promise queues one job per reaction (\<^verbatim>\<open>TriggerPromiseReactions\<close>);
    settling a promise that is no longer pending does nothing (the resolving functions'
    \<^verbatim>\<open>[[AlreadyResolved]]\<close> flag);
  \<^item> a job calls its handler and settles the derived promise with the result
    (\<^verbatim>\<open>PromiseReactionJob\<close>);
  \<^item> the event loop empties the job queue, then runs the timer callback that is due first
    (the earlier registration first among equal due times), and repeats.

  Closures are represented by constructors carrying what the closure captured: a promise is
  its index in the store, \<open>FetchTimeout p apiName shouldFail\<close> is the arrow function given to
  \<^verbatim>\<open>setTimeout\<close> inside \<^verbatim>\<open>fetchData\<close>, \<open>Print l label\<close> is a callback
  \<^verbatim>\<open>(x) => console.log(label, x)\<close> (or \<^verbatim>\<open>console.error\<close>).

  Time is counted in milliseconds, the unit of the \<^verbatim>\<open>delay\<close> argument, a natural
  number. \<^verbatim>\<open>setTimeout\<close> belongs to the host: it first converts the delay it is given
  (\<open>host_delay\<close>, below), and the callback is due exactly that many units after its
  registration. \<open>trace\<close> records, in order,
  every settlement with its time and every line printed: the printed lines are the script's
  output, the settlement events are an observation added to the state.
\<close>

type_synonym pid = nat

text \<open>
  Values: \<^verbatim>\<open>undefined\<close>, the strings \<^verbatim>\<open>fetchData\<close> produces, the arrays the combinators
  produce and the result objects of \<^verbatim>\<open>Promise.allSettled\<close> (an object is the list of its
  properties). None of them is a thenable, so resolving a promise with one fulfils it.
\<close>

datatype val = Undefined | Str string | Arr "val list" | Obj "(string \<times> val) list"

datatype settlement = Pending | Fulfilled val | Rejected val

datatype level = ConsoleLog | ConsoleError

text \<open>
  The functions that can be registered as handlers: the two defaults of \<^verbatim>\<open>then\<close>, the
  resolve and reject functions of a promise, the element functions of an aggregate
  (aggregate record and index) and the script's printing callbacks. A reaction is the pair
  of handlers given to \<^verbatim>\<open>then\<close> with the derived promise; a job is the handler picked
  at settlement with its argument and the derived promise.
\<close>

datatype handler =
    Identity
  | Thrower
  | ResolveFn pid
  | RejectFn pid
  | AllResolveElement nat nat
  | AllSettledResolveElement nat nat
  | AllSettledRejectElement nat nat
  | Print level string

datatype reaction = Reaction handler handler pid

datatype promise = Promise (status: settlement) (reactions: "reaction list")

datatype job = Job handler val pid

datatype task = FetchTimeout pid string bool

text \<open>
  The record shared by the element functions of one \<^verbatim>\<open>Promise.all\<close> or
  \<^verbatim>\<open>Promise.allSettled\<close> call: the values, the count of remaining elements, the
  already-called flag of every element and the result promise.
\<close>

datatype agg = Agg (vals: "val list") (remaining: int) (called: "bool list") (result: pid)

datatype event = Settled nat pid settlement | Printed nat level string "val list"

datatype completion = Normal val | Throw val

record state =
  now :: nat
  promises :: "promise list"
  aggs :: "agg list"
  timers :: "(nat \<times> task) list"
  microtasks :: "job list"
  trace :: "event list"

text \<open>The state at the start of the script.\<close>

definition init :: state where
  "init = \<lparr>now = 0, promises = [], aggs = [], timers = [], microtasks = [], trace = []\<rparr>"

definition status_of :: "pid \<Rightarrow> state \<Rightarrow> settlement" where
  "status_of p s = status (promises s ! p)"

definition is_pending :: "pid \<Rightarrow> state \<Rightarrow> bool" where
  "is_pending p s = (p < length (promises s) \<and> status (promises s ! p) = Pending)"

subsection \<open>Promise primitives\<close>

definition new_promise :: "state \<Rightarrow> pid \<times> state" where
  "new_promise s = (length (promises s), s\<lparr>promises := promises s @ [Promise Pending []]\<rparr>)"

text \<open>
  The resolve and reject functions handed to the executor of \<^verbatim>\<open>new Promise\<close>, and used by
  the runtime for derived and aggregate promises.
\<close>

definition resolve :: "pid \<Rightarrow> val \<Rightarrow> state \<Rightarrow> state" where
  "resolve p v s =
     (if is_pending p s
      then s\<lparr>promises := (promises s)[p := Promise (Fulfilled v) []],
             microtasks := microtasks s
                @ map (\<lambda>r. case r of Reaction f _ d \<Rightarrow> Job f v d) (reactions (promises s ! p)),
             trace := trace s @ [Settled (now s) p (Fulfilled v)]\<rparr>
      else s)"

definition reject :: "pid \<Rightarrow> val \<Rightarrow> state \<Rightarrow> state" where
  "reject p v s =
     (if is_pending p s
      then s\<lparr>promises := (promises s)[p := Promise (Rejected v) []],
             microtasks := microtasks s
                @ map (\<lambda>r. case r of Reaction _ g d \<Rightarrow> Job g v d) (reactions (promises s ! p)),
             trace := trace s @ [Settled (now s) p (Rejected v)]\<rparr>
      else s)"

text \<open>
  \<^verbatim>\<open>p.then(f, g)\<close> creates the derived promise and registers the reaction, or queues the job
  at once when \<open>p\<close> is already settled. \<^verbatim>\<open>p.catch(g)\<close> is \<^verbatim>\<open>p.then(undefined, g)\<close>; a
  missing fulfilment handler passes the value on (\<open>Identity\<close>), a missing rejection handler
  rethrows the reason (\<open>Thrower\<close>).
\<close>

definition perform_then :: "pid \<Rightarrow> handler \<Rightarrow> handler \<Rightarrow> pid \<Rightarrow> state \<Rightarrow> state" where
  "perform_then p f g d s =
     (case status (promises s ! p) of
        Pending \<Rightarrow>
          s\<lparr>promises := (promises s)[p := Promise Pending (reactions (promises s ! p) @ [Reaction f g d])]\<rparr>
      | Fulfilled v \<Rightarrow> s\<lparr>microtasks := microtasks s @ [Job f v d]\<rparr>
      | Rejected v \<Rightarrow> s\<lparr>microtasks := microtasks s @ [Job g v d]\<rparr>)"

definition promise_then :: "pid \<Rightarrow> handler \<Rightarrow> handler \<Rightarrow> state \<Rightarrow> pid \<times> state" where
  "promise_then p f g s = (let (d, s1) = new_promise s in (d, perform_then p f g d s1))"

definition promise_catch :: "pid \<Rightarrow> handler \<Rightarrow> state \<Rightarrow> pid \<times> state" where
  "promise_catch p g s = promise_then p Identity g s"

subsection \<open>\<^verbatim>\<open>fetchData\<close>\<close>

text \<open>
  \<^verbatim>\<open>function fetchData(apiName, delay = 1000, shouldFail = false)\<close>: an omitted argument is
  \<open>None\<close> and takes its default. The executor runs inside the constructor and only
  registers the timer; \<open>run_task\<close> is the body of the timer callback.

  \<^verbatim>\<open>fetchData\<close> hands \<^verbatim>\<open>delay\<close> to the host's \<^verbatim>\<open>setTimeout\<close> as it is. The host
  does not honour every delay: Node.js keeps a delay between 1 and
  \<^verbatim>\<open>TIMEOUT_MAX = 2 ** 31 - 1\<close> and sets every other delay to 1
  (\<^verbatim>\<open>if (!(after >= 1 && after <= TIMEOUT_MAX)) after = 1\<close>); \<open>host_delay\<close> is that
  conversion. Browsers convert the delay to a signed 32-bit integer, so they too keep the
  delays from 1 to \<open>2^31 - 1\<close> and no larger one; outside that range their conversion
  differs from that of Node.js (0 stays 0, a larger delay wraps around).
\<close>

definition timeout_max :: nat where
  "timeout_max = 2147483647"

definition host_delay :: "nat \<Rightarrow> nat" where
  "host_delay after = (if 1 \<le> after \<and> after \<le> timeout_max then after else 1)"

definition setTimeout :: "task \<Rightarrow> nat \<Rightarrow> state \<Rightarrow> state" where
  "setTimeout cb delay s = s\<lparr>timers := timers s @ [(now s + host_delay delay, cb)]\<rparr>"

definition fetchData :: "string \<Rightarrow> nat option \<Rightarrow> bool option \<Rightarrow> state \<Rightarrow> pid \<times> state" where
  "fetchData apiName delayArg shouldFailArg s =
     (let delay = (case delayArg of None \<Rightarrow> 1000 | Some d \<Rightarrow> d);
          shouldFail = (case shouldFailArg of None \<Rightarrow> False | Some b \<Rightarrow> b);
          (p, s1) = new_promise s
      in (p, setTimeout (FetchTimeout p apiName shouldFail) delay s1))"

fun run_task :: "task \<Rightarrow> state \<Rightarrow> state" where
  "run_task (FetchTimeout p apiName shouldFail) s =
     (if shouldFail
      then reject p (Str (''Error fetching data from '' @ apiName)) s
      else resolve p (Str (apiName @ '' data'')) s)"

subsection \<open>Handlers and jobs\<close>

text \<open>
  \<open>store_element\<close> is the resolve-element function of \<^verbatim>\<open>Promise.all\<close> and both element
  functions of \<^verbatim>\<open>Promise.allSettled\<close>: on its first call it stores the value at its index,
  decrements the count of remaining elements and, at zero, fulfils the aggregate with the
  array of values.
\<close>

definition store_element :: "nat \<Rightarrow> nat \<Rightarrow> val \<Rightarrow> state \<Rightarrow> state" where
  "store_element a i x s =
     (let g = aggs s ! a
      in if called g ! i then s
         else let g' = Agg ((vals g)[i := x]) (remaining g - 1) ((called g)[i := True]) (result g);
                  s' = s\<lparr>aggs := (aggs s)[a := g']\<rparr>
              in if remaining g' = 0 then resolve (result g') (Arr (vals g')) s' else s')"

fun call_handler :: "handler \<Rightarrow> val \<Rightarrow> state \<Rightarrow> completion \<times> state" where
  "call_handler Identity v s = (Normal v, s)"
| "call_handler Thrower v s = (Throw v, s)"
| "call_handler (ResolveFn p) v s = (Normal Undefined, resolve p v s)"
| "call_handler (RejectFn p) v s = (Normal Undefined, reject p v s)"
| "call_handler (AllResolveElement a i) v s = (Normal Undefined, store_element a i v s)"
| "call_handler (AllSettledResolveElement a i) v s =
     (Normal Undefined, store_element a i (Obj [(''status'', Str ''fulfilled''), (''value'', v)]) s)"
| "call_handler (AllSettledRejectElement a i) v s =
     (Normal Undefined, store_element a i (Obj [(''status'', Str ''rejected''), (''reason'', v)]) s)"
| "call_handler (Print l label) v s =
     (Normal Undefined, s\<lparr>trace := trace s @ [Printed (now s) l label [v]]\<rparr>)"

fun run_job :: "job \<Rightarrow> state \<Rightarrow> state" where
  "run_job (Job h v d) s =
     (case call_handler h v s of
        (Normal r, s') \<Rightarrow> resolve d r s'
      | (Throw e, s') \<Rightarrow> reject d e s')"

subsection \<open>The event loop\<close>

text \<open>
  \<open>next_timer\<close> takes the timer with the least due time out of the list; \<open>earliest\<close>
  keeps the earlier entry among equal due times.
\<close>

fun earliest :: "nat \<times> task \<Rightarrow> (nat \<times> task) list \<Rightarrow> nat \<times> task" where
  "earliest t [] = t"
| "earliest t (u # us) = earliest (if fst u < fst t then u else t) us"

definition next_timer :: "(nat \<times> task) list \<Rightarrow> ((nat \<times> task) \<times> (nat \<times> task) list) option" where
  "next_timer ts =
     (case ts of
        [] \<Rightarrow> None
      | t # us \<Rightarrow> (let e = earliest t us in Some (e, remove1 e ts)))"

text \<open>
  \<open>drain\<close> runs jobs until the queue is empty. It terminates because a job only moves
  reactions from promises to the queue and never registers a new one: twice the number of
  registered reactions plus the length of the queue decreases with every job.
\<close>

definition pending_work :: "state \<Rightarrow> nat" where
  "pending_work s = 2 * sum_list (map (\<lambda>p. length (reactions p)) (promises s)) + length (microtasks s)"

lemma timers_resolve [simp]: "timers (resolve p v s) = timers s"
  by (simp add: resolve_def)

lemma timers_reject [simp]: "timers (reject p v s) = timers s"
  by (simp add: reject_def)

lemma timers_store_element [simp]: "timers (store_element a i x s) = timers s"
  by (simp add: store_element_def Let_def)

lemma timers_call_handler [simp]: "timers (snd (call_handler h v s)) = timers s"
  by (cases h) simp_all

lemma timers_run_job [simp]: "timers (run_job j s) = timers s"
proof (cases j)
  case (Job h v d)
  obtain c s' where c: "call_handler h v s = (c, s')" by (cases "call_handler h v s")
  then have "timers s' = timers s" using timers_call_handler [of h v s] by simp
  then show ?thesis using Job c by (cases c) simp_all
qed

lemma timers_run_task [simp]: "timers (run_task t s) = timers s"
  by (cases t) simp

lemma sum_list_reactions_update:
  assumes "p < length ps"
  shows "sum_list (map (\<lambda>q. length (reactions q)) (ps[p := Promise st []]))
           + length (reactions (ps ! p))
         = sum_list (map (\<lambda>q. length (reactions q)) ps)"
  using assms
proof (induction ps arbitrary: p)
  case Nil
  then show ?case by simp
next
  case (Cons q qs)
  then show ?case by (cases p) auto
qed

lemma pending_work_resolve: "pending_work (resolve p v s) \<le> pending_work s"
proof (cases "is_pending p s")
  case True
  then have "p < length (promises s)" by (simp add: is_pending_def)
  from sum_list_reactions_update [OF this, of "Fulfilled v"] True show ?thesis
    by (simp add: resolve_def pending_work_def)
next
  case False
  then show ?thesis by (simp add: resolve_def)
qed

lemma pending_work_reject: "pending_work (reject p v s) \<le> pending_work s"
proof (cases "is_pending p s")
  case True
  then have "p < length (promises s)" by (simp add: is_pending_def)
  from sum_list_reactions_update [OF this, of "Rejected v"] True show ?thesis
    by (simp add: reject_def pending_work_def)
next
  case False
  then show ?thesis by (simp add: reject_def)
qed

lemma pending_work_aggs [simp]: "pending_work (s\<lparr>aggs := g\<rparr>) = pending_work s"
  by (simp add: pending_work_def)

lemma pending_work_trace [simp]: "pending_work (s\<lparr>trace := t\<rparr>) = pending_work s"
  by (simp add: pending_work_def)

lemma pending_work_store_element: "pending_work (store_element a i x s) \<le> pending_work s"
  unfolding store_element_def Let_def
  by (auto intro: order_trans [OF pending_work_resolve])

lemma pending_work_call_handler: "pending_work (snd (call_handler h v s)) \<le> pending_work s"
  by (cases h)
    (simp_all add: pending_work_resolve pending_work_reject pending_work_store_element)

lemma pending_work_run_job: "pending_work (run_job j s) \<le> pending_work s"
proof (cases j)
  case (Job h v d)
  obtain c s' where c: "call_handler h v s = (c, s')" by (cases "call_handler h v s")
  then have le: "pending_work s' \<le> pending_work s"
    using pending_work_call_handler [of h v s] by simp
  show ?thesis
  proof (cases c)
    case (Normal r)
    then show ?thesis using Job c le
      by (simp add: order_trans [OF pending_work_resolve])
  next
    case (Throw e)
    then show ?thesis using Job c le
      by (simp add: order_trans [OF pending_work_reject])
  qed
qed

function drain :: "state \<Rightarrow> state" where
  "drain s = (case microtasks s of [] \<Rightarrow> s | j # js \<Rightarrow> drain (run_job j (s\<lparr>microtasks := js\<rparr>)))"
  by pat_completeness auto
termination
proof (relation "measure pending_work")
  show "wf (measure pending_work)" by simp
next
  fix s :: state and j js
  assume m: "microtasks s = j # js"
  have "pending_work (run_job j (s\<lparr>microtasks := js\<rparr>)) \<le> pending_work (s\<lparr>microtasks := js\<rparr>)"
    by (rule pending_work_run_job)
  also have "\<dots> < pending_work s"
    using m by (simp add: pending_work_def)
  finally show "(run_job j (s\<lparr>microtasks := js\<rparr>), s) \<in> measure pending_work"
    by simp
qed

declare drain.simps [simp del]

lemma timers_drain [simp]: "timers (drain s) = timers s"
proof (induction s rule: drain.induct)
  case (1 s)
  show ?case
  proof (cases "microtasks s")
    case Nil
    then show ?thesis by (simp add: drain.simps [of s])
  next
    case (Cons j js)
    then show ?thesis using "1" by (simp add: drain.simps [of s])
  qed
qed

text \<open>
  \<open>run\<close> is the loop until no timer is left: empty the job queue, run the next timer
  callback at its due time, repeat. No handler of the script registers a timer, so the
  number of timers decreases.
\<close>

lemma earliest_mem: "earliest t us \<in> set (t # us)"
  by (induction us arbitrary: t) auto

lemma earliest_le_start: "fst (earliest t us) \<le> fst t"
proof (induction us arbitrary: t)
  case Nil
  show ?case by simp
next
  case (Cons w ws)
  have "fst (earliest (if fst w < fst t then w else t) ws) \<le> fst (if fst w < fst t then w else t)"
    by (rule Cons.IH)
  also have "\<dots> \<le> fst t" by simp
  finally show ?case by simp
qed

lemma earliest_le_mem: "u \<in> set us \<Longrightarrow> fst (earliest t us) \<le> fst u"
proof (induction us arbitrary: t)
  case Nil
  then show ?case by simp
next
  case (Cons w ws)
  show ?case
  proof (cases "u = w")
    case True
    have "fst (earliest (if fst w < fst t then w else t) ws) \<le> fst (if fst w < fst t then w else t)"
      by (rule earliest_le_start)
    also have "\<dots> \<le> fst w" by simp
    finally show ?thesis using True by simp
  next
    case False
    with Cons.prems have "u \<in> set ws" by simp
    from Cons.IH [OF this] show ?thesis by simp
  qed
qed

lemma next_timer_Some:
  assumes "next_timer ts = Some (t, rest)"
  shows "t \<in> set ts \<and> rest = remove1 t ts \<and> (\<forall>u \<in> set ts. fst t \<le> fst u)"
proof (cases ts)
  case Nil
  then show ?thesis using assms by (simp add: next_timer_def)
next
  case (Cons u us)
  then have "next_timer ts = Some (earliest u us, remove1 (earliest u us) ts)"
    by (simp add: next_timer_def Let_def del: remove1.simps)
  then have t: "t = earliest u us" and r: "rest = remove1 t ts"
    using assms by simp_all
  have "t \<in> set ts" using t Cons earliest_mem [of u us] by simp
  moreover have "\<forall>w \<in> set ts. fst t \<le> fst w"
    using t Cons earliest_le_start [of u us] earliest_le_mem [of _ us u] by auto
  ultimately show ?thesis using r by simp
qed

lemma next_timer_shorter: "next_timer ts = Some (t, rest) \<Longrightarrow> length rest < length ts"
proof -
  assume "next_timer ts = Some (t, rest)"
  then have "t \<in> set ts" "rest = remove1 t ts"
    using next_timer_Some by blast+
  then show ?thesis
    by (cases ts) (simp_all add: length_remove1 del: remove1.simps)
qed

definition fire :: "nat \<times> task \<Rightarrow> state \<Rightarrow> state" where
  "fire t s = run_task (snd t) (s\<lparr>now := max (now s) (fst t)\<rparr>)"

function run :: "state \<Rightarrow> state" where
  "run s =
     (let s1 = drain s
      in case next_timer (timers s1) of
           None \<Rightarrow> s1
         | Some (t, rest) \<Rightarrow> run (fire t (s1\<lparr>timers := rest\<rparr>)))"
  by pat_completeness auto
termination
proof (relation "measure (\<lambda>s. length (timers s))")
  show "wf (measure (\<lambda>s. length (timers s)))" by simp
next
  fix s s1 :: state and x t rest
  assume "s1 = drain s" "next_timer (timers s1) = Some x" "(t, rest) = x"
  then have "length rest < length (timers s)"
    using next_timer_shorter [of "timers s" t rest] by simp
  then show "(fire t (s1\<lparr>timers := rest\<rparr>), s) \<in> measure (\<lambda>s. length (timers s))"
    by (simp add: fire_def)
qed

declare run.simps [simp del]

subsection \<open>The combinators\<close>

text \<open>
  \<^verbatim>\<open>Promise.all\<close> and \<^verbatim>\<open>Promise.allSettled\<close> share one shape (\<open>aggregate\<close>): a new
  result promise, a record with the values, the count of remaining elements (starting at 1)
  and the per-element called flags; for every input, in order, a slot is added, the count
  incremented and a reaction registered with \<^verbatim>\<open>then\<close>; finally the count is decremented
  and the result fulfilled at once when it is zero (the empty input). \<^verbatim>\<open>Promise.all\<close>
  registers its resolve-element function and the result's reject function;
  \<^verbatim>\<open>Promise.allSettled\<close> registers its two element functions. \<^verbatim>\<open>Promise.race\<close> registers
  the result's own resolve and reject functions on every input.
\<close>

fun attach_each ::
  "(nat \<Rightarrow> handler) \<Rightarrow> (nat \<Rightarrow> handler) \<Rightarrow> nat \<Rightarrow> nat \<Rightarrow> pid list \<Rightarrow> state \<Rightarrow> state" where
  "attach_each F G a i [] s = s"
| "attach_each F G a i (p # ps) s =
     (let g = aggs s ! a;
          s1 = s\<lparr>aggs := (aggs s)[a := Agg (vals g @ [Undefined]) (remaining g + 1)
                                           (called g @ [False]) (result g)]\<rparr>;
          (d, s2) = promise_then p (F i) (G i) s1
      in attach_each F G a (Suc i) ps s2)"

definition aggregate ::
  "(nat \<Rightarrow> nat \<Rightarrow> handler) \<Rightarrow> (nat \<Rightarrow> pid \<Rightarrow> nat \<Rightarrow> handler) \<Rightarrow> pid list \<Rightarrow> state \<Rightarrow> pid \<times> state" where
  "aggregate F G ps s =
     (let (r, s1) = new_promise s;
          a = length (aggs s1);
          s2 = s1\<lparr>aggs := aggs s1 @ [Agg [] 1 [] r]\<rparr>;
          s3 = attach_each (F a) (G a r) a 0 ps s2;
          g = aggs s3 ! a;
          g' = Agg (vals g) (remaining g - 1) (called g) (result g);
          s4 = s3\<lparr>aggs := (aggs s3)[a := g']\<rparr>
      in (r, if remaining g' = 0 then resolve r (Arr (vals g')) s4 else s4))"

definition promise_all :: "pid list \<Rightarrow> state \<Rightarrow> pid \<times> state" where
  "promise_all = aggregate AllResolveElement (\<lambda>a r i. RejectFn r)"

definition promise_allSettled :: "pid list \<Rightarrow> state \<Rightarrow> pid \<times> state" where
  "promise_allSettled = aggregate AllSettledResolveElement (\<lambda>a r. AllSettledRejectElement a)"

fun race_each :: "pid \<Rightarrow> pid list \<Rightarrow> state \<Rightarrow> state" where
  "race_each r [] s = s"
| "race_each r (p # ps) s = race_each r ps (snd (promise_then p (ResolveFn r) (RejectFn r) s))"

definition promise_race :: "pid list \<Rightarrow> state \<Rightarrow> pid \<times> state" where
  "promise_race ps s = (let (r, s1) = new_promise s in (r, race_each r ps s1))"

text \<open>
  The argument list of one \<^verbatim>\<open>fetchData\<close> call, and the array literal of such calls that
  the script passes to a combinator (evaluated left to right before the combinator runs).
\<close>

type_synonym call_args = "string \<times> nat option \<times> bool option"

fun fetch_each :: "call_args list \<Rightarrow> state \<Rightarrow> pid list \<times> state" where
  "fetch_each [] s = ([], s)"
| "fetch_each ((apiName, delayArg, shouldFailArg) # cs) s =
     (let (p, s1) = fetchData apiName delayArg shouldFailArg s;
          (ps, s2) = fetch_each cs s1
      in (p # ps, s2))"

definition all_of :: "call_args list \<Rightarrow> state \<Rightarrow> pid \<times> state" where
  "all_of cs s = (let (ps, s1) = fetch_each cs s in promise_all ps s1)"

definition race_of :: "call_args list \<Rightarrow> state \<Rightarrow> pid \<times> state" where
  "race_of cs s = (let (ps, s1) = fetch_each cs s in promise_race ps s1)"

definition allSettled_of :: "call_args list \<Rightarrow> state \<Rightarrow> pid \<times> state" where
  "allSettled_of cs s = (let (ps, s1) = fetch_each cs s in promise_allSettled ps s1)"

text \<open>
  The loop observed on the way: \<open>run_for k\<close> stops after at most \<open>k\<close> timer callbacks
  (each followed by its jobs). \<open>run_for_complete\<close> below relates it to \<open>run\<close>.
\<close>

fun run_for :: "nat \<Rightarrow> state \<Rightarrow> state" where
  "run_for 0 s = drain s"
| "run_for (Suc k) s =
     (let s1 = drain s
      in case next_timer (timers s1) of
           None \<Rightarrow> s1
         | Some (t, rest) \<Rightarrow> run_for k (fire t (s1\<lparr>timers := rest\<rparr>)))"

text \<open>
  Lines 38 to 44 of the script attach \<^verbatim>\<open>.then((data) => console.log("Data received:", data))\<close>
  and then \<^verbatim>\<open>.catch((error) => console.error("Failed to fetch data:", error))\<close> to the
  promise returned by \<^verbatim>\<open>fetchData("API 1", 500)\<close>; \<open>first_statement\<close> is the state this
  statement leaves at the start of the script.
\<close>

definition basic_usage :: "pid \<Rightarrow> state \<Rightarrow> state" where
  "basic_usage p s =
     (let (d1, s1) = promise_then p (Print ConsoleLog ''Data received:'') Thrower s;
          (d2, s2) = promise_catch d1 (Print ConsoleError ''Failed to fetch data:'') s1
      in s2)"

definition first_statement :: state where
  "first_statement = (let (p, s) = fetchData ''API 1'' (Some 500) None init in basic_usage p s)"

subsection \<open>What a call is expected to produce\<close>

text \<open>
  The arguments a call really uses after defaulting, the delay the host's timer waits for
  it (\<open>due_of\<close>), the outcome the script's comments announce for it, and the entry
  \<^verbatim>\<open>Promise.allSettled\<close> reports for it.
\<close>

definition name_of :: "call_args \<Rightarrow> string" where
  "name_of c = fst c"

definition delay_of :: "call_args \<Rightarrow> nat" where
  "delay_of c = (case fst (snd c) of None \<Rightarrow> 1000 | Some d \<Rightarrow> d)"

definition due_of :: "call_args \<Rightarrow> nat" where
  "due_of c = host_delay (delay_of c)"

definition fails_of :: "call_args \<Rightarrow> bool" where
  "fails_of c = (case snd (snd c) of None \<Rightarrow> False | Some b \<Rightarrow> b)"

definition outcome_of :: "call_args \<Rightarrow> settlement" where
  "outcome_of c =
     (if fails_of c then Rejected (Str (''Error fetching data from '' @ name_of c))
      else Fulfilled (Str (name_of c @ '' data'')))"

definition payload_of :: "call_args \<Rightarrow> val" where
  "payload_of c =
     (if fails_of c then Str (''Error fetching data from '' @ name_of c)
      else Str (name_of c @ '' data''))"

definition settled_entry :: "call_args \<Rightarrow> val" where
  "settled_entry c =
     (if fails_of c
      then Obj [(''status'', Str ''rejected''),
                (''reason'', Str (''Error fetching data from '' @ name_of c))]
      else Obj [(''status'', Str ''fulfilled''), (''value'', Str (name_of c @ '' data''))])"

subsection \<open>Unreferenced promise identifiers\<close>

text \<open>
  \<open>fresh p s\<close>: nothing in \<open>s\<close> refers to the promise \<open>p\<close> (no handler, derived promise,
  aggregate, timer or trace event), and every element function refers to an existing
  aggregate record. Promise identifiers are handed out in order, so this is what one
  expects of the identifier the next \<^verbatim>\<open>new Promise\<close> will get; it holds at the start of
  the script (\<open>fresh_init\<close>). \<open>settlements p\<close> lists the settlement events of \<open>p\<close> in
  a trace.
\<close>

fun avoids :: "pid \<Rightarrow> nat \<Rightarrow> handler \<Rightarrow> bool" where
  "avoids p na (ResolveFn q) = (q \<noteq> p)"
| "avoids p na (RejectFn q) = (q \<noteq> p)"
| "avoids p na (AllResolveElement a i) = (a < na)"
| "avoids p na (AllSettledResolveElement a i) = (a < na)"
| "avoids p na (AllSettledRejectElement a i) = (a < na)"
| "avoids p na Identity = True"
| "avoids p na Thrower = True"
| "avoids p na (Print l label) = True"

fun job_avoids :: "pid \<Rightarrow> nat \<Rightarrow> job \<Rightarrow> bool" where
  "job_avoids p na (Job h v d) = (avoids p na h \<and> d \<noteq> p)"

fun reaction_avoids :: "pid \<Rightarrow> nat \<Rightarrow> reaction \<Rightarrow> bool" where
  "reaction_avoids p na (Reaction f g d) = (avoids p na f \<and> avoids p na g \<and> d \<noteq> p)"

fun task_pid :: "task \<Rightarrow> pid" where
  "task_pid (FetchTimeout p apiName shouldFail) = p"

fun settlements :: "pid \<Rightarrow> event list \<Rightarrow> (nat \<times> settlement) list" where
  "settlements p [] = []"
| "settlements p (Settled t q st # es) =
     (if q = p then (t, st) # settlements p es else settlements p es)"
| "settlements p (Printed t l label vs # es) = settlements p es"

definition untouched :: "pid \<Rightarrow> state \<Rightarrow> bool" where
  "untouched p s \<longleftrightarrow>
     (\<forall>g \<in> set (aggs s). result g \<noteq> p)
     \<and> (\<forall>j \<in> set (microtasks s). job_avoids p (length (aggs s)) j)
     \<and> (\<forall>q \<in> set (promises s). \<forall>r \<in> set (reactions q). reaction_avoids p (length (aggs s)) r)"

definition fresh :: "pid \<Rightarrow> state \<Rightarrow> bool" where
  "fresh p s \<longleftrightarrow>
     untouched p s \<and> (\<forall>t \<in> set (timers s). task_pid (snd t) \<noteq> p) \<and> settlements p (trace s) = []"

subsection \<open>Well-formed states\<close>

text \<open>
  \<open>sound s\<close>: every identifier stored in \<open>s\<close> refers to a record that exists. The
  handlers and derived promises of the queued jobs and of the registered reactions, the
  result promises of the aggregate records, the promises of the timer callbacks and of the
  settlement events are all below the number of promises (and, for element functions, of
  aggregate records) allocated so far. It says nothing about what is in flight: any number
  of timers, reactions and jobs of earlier statements may be waiting.

  The state at the start of the script is sound (\<open>sound_init\<close>), and every operation of
  the model keeps a sound state sound: \<^verbatim>\<open>fetchData\<close>, \<^verbatim>\<open>then\<close> and \<^verbatim>\<open>catch\<close> with the
  script's callbacks, the three combinators, every job and every timer callback
  (\<open>sound_fetchData\<close>, \<open>sound_promise_then\<close>, \<open>sound_basic_usage\<close>, \<open>sound_all_of\<close>,
  \<open>sound_race_of\<close>, \<open>sound_allSettled_of\<close>, \<open>sound_drain\<close>, \<open>sound_fire\<close>,
  \<open>sound_run\<close> below). \<open>others_ok L A s\<close> is the part of it that concerns the promises
  below \<open>L\<close> and the aggregate records below \<open>A\<close>.
\<close>

fun below :: "nat \<Rightarrow> nat \<Rightarrow> handler \<Rightarrow> bool" where
  "below L A (ResolveFn q) = (q < L)"
| "below L A (RejectFn q) = (q < L)"
| "below L A (AllResolveElement a i) = (a < A)"
| "below L A (AllSettledResolveElement a i) = (a < A)"
| "below L A (AllSettledRejectElement a i) = (a < A)"
| "below L A Identity = True"
| "below L A Thrower = True"
| "below L A (Print l label) = True"

fun job_below :: "nat \<Rightarrow> nat \<Rightarrow> job \<Rightarrow> bool" where
  "job_below L A (Job h v d) = (below L A h \<and> d < L)"

fun reaction_below :: "nat \<Rightarrow> nat \<Rightarrow> reaction \<Rightarrow> bool" where
  "reaction_below L A (Reaction f g d) = (below L A f \<and> below L A g \<and> d < L)"

fun event_below :: "nat \<Rightarrow> event \<Rightarrow> bool" where
  "event_below L (Settled t q st) = (q < L)"
| "event_below L (Printed t l label vs) = True"

definition others_ok :: "nat \<Rightarrow> nat \<Rightarrow> state \<Rightarrow> bool" where
  "others_ok L A s \<longleftrightarrow>
     L \<le> length (promises s) \<and> A \<le> length (aggs s)
     \<and> (\<forall>j \<in> set (microtasks s). job_below L A j)
     \<and> (\<forall>q<L. \<forall>r \<in> set (reactions (promises s ! q)). reaction_below L A r)
     \<and> (\<forall>a<A. result (aggs s ! a) < L)"

definition sound :: "state \<Rightarrow> bool" where
  "sound s \<longleftrightarrow>
     others_ok (length (promises s)) (length (aggs s)) s
     \<and> (\<forall>t \<in> set (timers s). task_pid (snd t) < length (promises s))
     \<and> (\<forall>e \<in> set (trace s). event_below (length (promises s)) e)"

section \<open>Facts about the event loop\<close>


lemma outcome_of_settled [simp]: "outcome_of c \<noteq> Pending" "Pending \<noteq> outcome_of c"
  by (simp_all add: outcome_of_def)

subsection \<open>The state after a call, and the loop invariant rules\<close>

lemma fetchData_eq:
  "fetchData n d f s =
     (length (promises s),
      s\<lparr>promises := promises s @ [Promise Pending []],
        timers := timers s @ [(now s + due_of (n, d, f),
                               FetchTimeout (length (promises s)) n (fails_of (n, d, f)))]\<rparr>)"
  by (simp add: fetchData_def new_promise_def setTimeout_def due_of_def delay_of_def fails_of_def Let_def)

lemma resolve_fields:
  "promises (resolve p v s)
     = (if is_pending p s then (promises s)[p := Promise (Fulfilled v) []] else promises s)"
  "microtasks (resolve p v s)
     = (if is_pending p s
        then microtasks s @ map (\<lambda>r. case r of Reaction f _ d \<Rightarrow> Job f v d) (reactions (promises s ! p))
        else microtasks s)"
  "trace (resolve p v s)
     = (if is_pending p s then trace s @ [Settled (now s) p (Fulfilled v)] else trace s)"
  "aggs (resolve p v s) = aggs s" "now (resolve p v s) = now s"
  by (simp_all add: resolve_def)

lemma reject_fields:
  "promises (reject p v s)
     = (if is_pending p s then (promises s)[p := Promise (Rejected v) []] else promises s)"
  "microtasks (reject p v s)
     = (if is_pending p s
        then microtasks s @ map (\<lambda>r. case r of Reaction _ g d \<Rightarrow> Job g v d) (reactions (promises s ! p))
        else microtasks s)"
  "trace (reject p v s)
     = (if is_pending p s then trace s @ [Settled (now s) p (Rejected v)] else trace s)"
  "aggs (reject p v s) = aggs s" "now (reject p v s) = now s"
  by (simp_all add: reject_def)

lemma drain_Nil: "microtasks s = [] \<Longrightarrow> drain s = s"
  by (simp add: drain.simps [of s])

lemma drain_Cons: "microtasks s = j # js \<Longrightarrow> drain s = drain (run_job j (s\<lparr>microtasks := js\<rparr>))"
  by (simp add: drain.simps [of s])

lemma run_invariant:
  assumes "I (drain s)"
    and "\<And>s t rest. I s \<Longrightarrow> next_timer (timers s) = Some (t, rest)
            \<Longrightarrow> I (drain (fire t (s\<lparr>timers := rest\<rparr>)))"
  shows "I (run s) \<and> timers (run s) = []"
  using assms(1)
proof (induction s rule: run.induct)
  case (1 s)
  show ?case
  proof (cases "next_timer (timers (drain s))")
    case None
    then have "timers (drain s) = []"
      by (cases "timers (drain s)") (simp_all add: next_timer_def Let_def)
    moreover have "run s = drain s"
      using None by (simp add: run.simps [of s])
    ultimately show ?thesis using "1.prems" by simp
  next
    case (Some x)
    obtain t rest where x: "x = (t, rest)" by (cases x)
    have r: "run s = run (fire t ((drain s)\<lparr>timers := rest\<rparr>))"
      using Some x by (simp add: run.simps [of s])
    have "I (drain (fire t ((drain s)\<lparr>timers := rest\<rparr>)))"
      using assms(2) [OF "1.prems"] Some x by simp
    from "1.IH" [OF refl _ _ this] Some x show ?thesis
      unfolding r by simp
  qed
qed

lemma next_timer_None: "next_timer ts = None \<longleftrightarrow> ts = []"
  by (cases ts) (simp_all add: next_timer_def Let_def)

lemma run_for_complete: "length (timers s) \<le> k \<Longrightarrow> run_for k s = run s"
proof (induction k arbitrary: s)
  case 0
  then have "next_timer (timers (drain s)) = None" by (simp add: next_timer_None)
  then show ?case by (simp add: run.simps [of s])
next
  case (Suc k)
  show ?case
  proof (cases "next_timer (timers (drain s))")
    case None
    then show ?thesis by (simp add: run.simps [of s])
  next
    case (Some x)
    obtain t rest where x: "x = (t, rest)" by (cases x)
    have "length rest < length (timers s)"
      using next_timer_shorter [of "timers s" t rest] Some x by simp
    then have "length (timers (fire t ((drain s)\<lparr>timers := rest\<rparr>))) \<le> k"
      using Suc.prems by (simp add: fire_def)
    from Suc.IH [OF this] Some x show ?thesis
      by (simp add: run.simps [of s])
  qed
qed

lemma run_for_invariant:
  assumes "I (drain s)"
    and "\<And>s t rest. I s \<Longrightarrow> next_timer (timers s) = Some (t, rest)
            \<Longrightarrow> I (drain (fire t (s\<lparr>timers := rest\<rparr>)))"
  shows "I (run_for k s)"
  using assms(1)
proof (induction k arbitrary: s)
  case 0
  then show ?case by simp
next
  case (Suc k)
  show ?case
  proof (cases "next_timer (timers (drain s))")
    case None
    then show ?thesis using Suc.prems by simp
  next
    case (Some x)
    obtain t rest where x: "x = (t, rest)" by (cases x)
    have "I (drain (fire t ((drain s)\<lparr>timers := rest\<rparr>)))"
      using assms(2) [OF Suc.prems] Some x by simp
    from Suc.IH [OF this] Some x show ?thesis by simp
  qed
qed

lemma next_timer_single: "next_timer [t] = Some (t, [])"
  by (simp add: next_timer_def)

lemma basic_usage_trace:
  "trace (run (basic_usage (fst (fetchData n d f init)) (snd (fetchData n d f init))))
     = (if fails_of (n, d, f)
        then [Settled (due_of (n, d, f)) 0 (Rejected (Str (''Error fetching data from '' @ n))),
              Settled (due_of (n, d, f)) 1 (Rejected (Str (''Error fetching data from '' @ n))),
              Printed (due_of (n, d, f)) ConsoleError ''Failed to fetch data:''
                 [Str (''Error fetching data from '' @ n)],
              Settled (due_of (n, d, f)) 2 (Fulfilled Undefined)]
        else [Settled (due_of (n, d, f)) 0 (Fulfilled (Str (n @ '' data''))),
              Printed (due_of (n, d, f)) ConsoleLog ''Data received:'' [Str (n @ '' data'')],
              Settled (due_of (n, d, f)) 1 (Fulfilled Undefined),
              Settled (due_of (n, d, f)) 2 (Fulfilled Undefined)])"
  by (simp add: fetchData_eq basic_usage_def promise_then_def promise_catch_def new_promise_def
      perform_then_def init_def run.simps drain.simps next_timer_single fire_def
      resolve_def reject_def is_pending_def Let_def next_timer_None [THEN iffD2])

lemma fetch_each_eq:
  "fetch_each cs s =
     ([length (promises s) ..< length (promises s) + length cs],
      s\<lparr>promises := promises s @ replicate (length cs) (Promise Pending []),
        timers := timers s @ map (\<lambda>i. (now s + due_of (cs ! i),
                        FetchTimeout (length (promises s) + i) (name_of (cs ! i)) (fails_of (cs ! i))))
                      [0 ..< length cs]\<rparr>)"
proof (induction cs arbitrary: s)
  case Nil
  show ?case by simp
next
  case (Cons c cs)
  obtain n d f where c: "c = (n, d, f)" by (cases c) auto
  have upt: "[0 ..< Suc (length cs)] = 0 # map Suc [0 ..< length cs]"
    by (simp only: map_Suc_upt upt_conv_Cons [of 0 "Suc (length cs)"] zero_less_Suc)
  show ?case
    unfolding c fetch_each.simps fetchData_eq Let_def prod.case Cons.IH
    by (simp add: upt_conv_Cons replicate_app_Cons_same o_def upt name_of_def del: upt_Suc)
qed

text \<open>
  While its timer is waiting, the promise is pending, unreferenced by anything but that
  timer, and has no settlement event; afterwards it is settled with one event.
\<close>

definition awaiting :: "pid \<Rightarrow> nat \<times> task \<Rightarrow> state \<Rightarrow> bool" where
  "awaiting p tm s \<longleftrightarrow>
     is_pending p s \<and> untouched p s \<and> tm \<in> set (timers s)
     \<and> (\<forall>t \<in> set (timers s). task_pid (snd t) = p \<longrightarrow> t = tm)
     \<and> now s \<le> fst tm \<and> settlements p (trace s) = []"

definition settled_as :: "pid \<Rightarrow> nat \<Rightarrow> settlement \<Rightarrow> state \<Rightarrow> bool" where
  "settled_as p t st s \<longleftrightarrow>
     p < length (promises s) \<and> status (promises s ! p) = st \<and> st \<noteq> Pending
     \<and> settlements p (trace s) = [(t, st)]"

subsection \<open>Settlement events\<close>

lemma settlements_append [simp]:
  "settlements p (xs @ ys) = settlements p xs @ settlements p ys"
  by (induction p xs rule: settlements.induct) simp_all

subsection \<open>A settled promise stays as it is\<close>

lemma settled_as_resolve: "settled_as p t st s \<Longrightarrow> settled_as p t st (resolve q v s)"
  by (cases "q = p") (auto simp: settled_as_def resolve_def is_pending_def)

lemma settled_as_reject: "settled_as p t st s \<Longrightarrow> settled_as p t st (reject q v s)"
  by (cases "q = p") (auto simp: settled_as_def reject_def is_pending_def)

lemma settled_as_aggs [simp]: "settled_as p t st (s\<lparr>aggs := a\<rparr>) = settled_as p t st s"
  by (simp add: settled_as_def)

lemma settled_as_microtasks [simp]: "settled_as p t st (s\<lparr>microtasks := a\<rparr>) = settled_as p t st s"
  by (simp add: settled_as_def)

lemma settled_as_timers [simp]: "settled_as p t st (s\<lparr>timers := a\<rparr>) = settled_as p t st s"
  by (simp add: settled_as_def)

lemma settled_as_now [simp]: "settled_as p t st (s\<lparr>now := a\<rparr>) = settled_as p t st s"
  by (simp add: settled_as_def)

lemma settled_as_store_element:
  "settled_as p t st s \<Longrightarrow> settled_as p t st (store_element a i x s)"
  by (simp add: store_element_def Let_def settled_as_resolve)

lemma settled_as_call_handler:
  "settled_as p t st s \<Longrightarrow> settled_as p t st (snd (call_handler h v s))"
  by (cases h)
    (simp_all add: settled_as_resolve settled_as_reject settled_as_store_element,
      simp add: settled_as_def)

lemma settled_as_run_job: "settled_as p t st s \<Longrightarrow> settled_as p t st (run_job j s)"
proof (cases j)
  case (Job h v d)
  assume a: "settled_as p t st s"
  obtain c s' where c: "call_handler h v s = (c, s')" by (cases "call_handler h v s")
  then have "settled_as p t st s'" using settled_as_call_handler [OF a, of h v] by simp
  then show ?thesis using Job c
    by (cases c) (simp_all add: settled_as_resolve settled_as_reject)
qed

lemma settled_as_drain: "settled_as p t st s \<Longrightarrow> settled_as p t st (drain s)"
proof (induction s rule: drain.induct)
  case (1 s)
  show ?case
  proof (cases "microtasks s")
    case Nil
    then show ?thesis using "1.prems" by (simp add: drain_Nil)
  next
    case (Cons j js)
    have "settled_as p t st (run_job j (s\<lparr>microtasks := js\<rparr>))"
      using "1.prems" by (intro settled_as_run_job) simp
    from "1.IH" [OF Cons this] show ?thesis
      using Cons by (simp add: drain_Cons)
  qed
qed

lemma settled_as_fire: "settled_as p t st s \<Longrightarrow> settled_as p t st (fire u s)"
  by (cases u, cases "snd u")
    (simp_all add: fire_def settled_as_resolve settled_as_reject)

subsection \<open>A pending promise is changed by its own timer only\<close>

lemma set_update_subset: "x \<in> set (xs[i := y]) \<Longrightarrow> x = y \<or> x \<in> set xs"
  using set_update_subset_insert [of xs i y] by auto

lemma untouched_reactions:
  "untouched p s \<Longrightarrow> q < length (promises s) \<Longrightarrow> r \<in> set (reactions (promises s ! q))
     \<Longrightarrow> reaction_avoids p (length (aggs s)) r"
  by (auto simp: untouched_def)

lemma awaiting_resolve:
  assumes "awaiting p tm s" and "q \<noteq> p"
  shows "awaiting p tm (resolve q v s)"
proof (cases "is_pending q s")
  case False
  then show ?thesis using assms by (simp add: resolve_def)
next
  case True
  then have q: "q < length (promises s)" by (simp add: is_pending_def)
  from assms have u: "untouched p s" by (simp add: awaiting_def)
  have jobs: "\<forall>j \<in> set (map (\<lambda>r. case r of Reaction f _ d \<Rightarrow> Job f v d) (reactions (promises s ! q))).
               job_avoids p (length (aggs s)) j"
  proof
    fix j assume "j \<in> set (map (\<lambda>r. case r of Reaction f _ d \<Rightarrow> Job f v d) (reactions (promises s ! q)))"
    then obtain r where r: "r \<in> set (reactions (promises s ! q))"
      and j: "j = (case r of Reaction f _ d \<Rightarrow> Job f v d)" by auto
    from untouched_reactions [OF u q r] j show "job_avoids p (length (aggs s)) j"
      by (cases r) simp
  qed
  have "untouched p (resolve q v s)"
    using u jobs True
    by (auto simp: untouched_def resolve_def dest!: set_update_subset)
  then show ?thesis
    using assms True by (auto simp: awaiting_def resolve_fields is_pending_def resolve_def)
qed

lemma awaiting_reject:
  assumes "awaiting p tm s" and "q \<noteq> p"
  shows "awaiting p tm (reject q v s)"
proof (cases "is_pending q s")
  case False
  then show ?thesis using assms by (simp add: reject_def)
next
  case True
  then have q: "q < length (promises s)" by (simp add: is_pending_def)
  from assms have u: "untouched p s" by (simp add: awaiting_def)
  have jobs: "\<forall>j \<in> set (map (\<lambda>r. case r of Reaction _ g d \<Rightarrow> Job g v d) (reactions (promises s ! q))).
               job_avoids p (length (aggs s)) j"
  proof
    fix j assume "j \<in> set (map (\<lambda>r. case r of Reaction _ g d \<Rightarrow> Job g v d) (reactions (promises s ! q)))"
    then obtain r where r: "r \<in> set (reactions (promises s ! q))"
      and j: "j = (case r of Reaction _ g d \<Rightarrow> Job g v d)" by auto
    from untouched_reactions [OF u q r] j show "job_avoids p (length (aggs s)) j"
      by (cases r) simp
  qed
  have "untouched p (reject q v s)"
    using u jobs True
    by (auto simp: untouched_def reject_def dest!: set_update_subset)
  then show ?thesis
    using assms True by (auto simp: awaiting_def reject_fields is_pending_def reject_def)
qed

lemma awaiting_store_element:
  assumes "awaiting p tm s" and "a < length (aggs s)"
  shows "awaiting p tm (store_element a i x s)"
proof -
  define g where "g = aggs s ! a"
  define g' where "g' = Agg ((vals g)[i := x]) (remaining g - 1) ((called g)[i := True]) (result g)"
  from assms have "g \<in> set (aggs s)" by (simp add: g_def)
  with assms have r: "result g \<noteq> p" by (auto simp: awaiting_def untouched_def)
  have "untouched p (s\<lparr>aggs := (aggs s)[a := g']\<rparr>)"
    using assms(1) r
    by (auto simp: awaiting_def untouched_def g'_def dest!: set_update_subset)
  then have "awaiting p tm (s\<lparr>aggs := (aggs s)[a := g']\<rparr>)"
    using assms(1) by (simp add: awaiting_def is_pending_def)
  then have "awaiting p tm (resolve (result g') (Arr (vals g')) (s\<lparr>aggs := (aggs s)[a := g']\<rparr>))"
    using r by (intro awaiting_resolve) (simp_all add: g'_def)
  then show ?thesis
    using assms(1) \<open>awaiting p tm (s\<lparr>aggs := (aggs s)[a := g']\<rparr>)\<close>
    by (simp add: store_element_def Let_def g_def [symmetric] g'_def [symmetric])
qed

lemma awaiting_call_handler:
  assumes "awaiting p tm s" and "avoids p (length (aggs s)) h"
  shows "awaiting p tm (snd (call_handler h v s))"
  using assms
  by (cases h)
    (simp_all add: awaiting_resolve awaiting_reject awaiting_store_element,
      simp add: awaiting_def is_pending_def untouched_def)

lemma awaiting_run_job:
  assumes "awaiting p tm s" and "microtasks s = j # js"
  shows "awaiting p tm (run_job j (s\<lparr>microtasks := js\<rparr>))"
proof (cases j)
  case (Job h v d)
  from assms Job have av: "avoids p (length (aggs s)) h" "d \<noteq> p"
    by (auto simp: awaiting_def untouched_def)
  have a: "awaiting p tm (s\<lparr>microtasks := js\<rparr>)"
    using assms by (auto simp: awaiting_def untouched_def is_pending_def)
  obtain c s' where c: "call_handler h v (s\<lparr>microtasks := js\<rparr>) = (c, s')"
    by (cases "call_handler h v (s\<lparr>microtasks := js\<rparr>)")
  then have "awaiting p tm s'"
    using awaiting_call_handler [OF a, of h v] av by simp
  then show ?thesis using Job c av
    by (cases c) (simp_all add: awaiting_resolve awaiting_reject)
qed

lemma awaiting_drain: "awaiting p tm s \<Longrightarrow> awaiting p tm (drain s)"
proof (induction s rule: drain.induct)
  case (1 s)
  show ?case
  proof (cases "microtasks s")
    case Nil
    then show ?thesis using "1.prems" by (simp add: drain_Nil)
  next
    case (Cons j js)
    have "awaiting p tm (run_job j (s\<lparr>microtasks := js\<rparr>))"
      using "1.prems" Cons by (rule awaiting_run_job)
    from "1.IH" [OF Cons this] show ?thesis
      using Cons by (simp add: drain_Cons)
  qed
qed

subsection \<open>From the call to the settlement\<close>

definition task_outcome :: "task \<Rightarrow> settlement" where
  "task_outcome t =
     (case t of FetchTimeout p apiName shouldFail \<Rightarrow>
        if shouldFail then Rejected (Str (''Error fetching data from '' @ apiName))
        else Fulfilled (Str (apiName @ '' data'')))"

definition lifecycle :: "pid \<Rightarrow> nat \<times> task \<Rightarrow> state \<Rightarrow> bool" where
  "lifecycle p tm s \<longleftrightarrow> awaiting p tm s \<or> settled_as p (fst tm) (task_outcome (snd tm)) s"

lemma lifecycle_drain: "lifecycle p tm s \<Longrightarrow> lifecycle p tm (drain s)"
  by (auto simp: lifecycle_def awaiting_drain settled_as_drain)

lemma awaiting_timers_now:
  assumes "awaiting p tm s" and "tm \<in> set ts" and "set ts \<subseteq> set (timers s)" and "t' \<le> fst tm"
  shows "awaiting p tm (s\<lparr>timers := ts, now := t'\<rparr>)"
proof -
  have "is_pending p (s\<lparr>timers := ts, now := t'\<rparr>) = is_pending p s"
    by (simp add: is_pending_def)
  moreover have "untouched p (s\<lparr>timers := ts, now := t'\<rparr>) = untouched p s"
    by (simp add: untouched_def)
  moreover have "\<forall>t \<in> set ts. task_pid (snd t) = p \<longrightarrow> t = tm"
    using assms(1,3) unfolding awaiting_def by blast
  ultimately show ?thesis
    using assms unfolding awaiting_def by simp
qed

lemma awaiting_fire:
  assumes a: "awaiting p tm s" and nt: "next_timer (timers s) = Some (t, rest)"
    and tm: "task_pid (snd tm) = p"
  shows "lifecycle p tm (fire t (s\<lparr>timers := rest\<rparr>))"
proof -
  from next_timer_Some [OF nt] have t: "t \<in> set (timers s)" and rest: "rest = remove1 t (timers s)"
    and least: "\<forall>u \<in> set (timers s). fst t \<le> fst u"
    by simp_all
  from a have tmin: "tm \<in> set (timers s)" and nw: "now s \<le> fst tm"
    and own: "\<forall>u \<in> set (timers s). task_pid (snd u) = p \<longrightarrow> u = tm"
    and pend: "is_pending p s" and tr: "settlements p (trace s) = []"
    by (simp_all add: awaiting_def)
  obtain due q nm fl where tt: "t = (due, FetchTimeout q nm fl)"
    by (cases t, cases "snd t") auto
  show ?thesis
  proof (cases "t = tm")
    case True
    with tt have tmeq: "tm = (due, FetchTimeout q nm fl)" by simp
    have q: "q = p" using tm by (simp add: tmeq)
    have mx: "max (now s) due = due" using nw by (simp add: tmeq)
    have "settled_as p due (task_outcome (FetchTimeout q nm fl)) (fire t (s\<lparr>timers := rest\<rparr>))"
      using pend tr mx
      by (simp add: tt q fire_def settled_as_def task_outcome_def resolve_def reject_def
          is_pending_def)
    then have "settled_as p (fst tm) (task_outcome (snd tm)) (fire t (s\<lparr>timers := rest\<rparr>))"
      by (simp add: tmeq)
    then show ?thesis by (simp add: lifecycle_def)
  next
    case False
    then have q: "q \<noteq> p" using own t tt by auto
    have in_rest: "tm \<in> set rest" using tmin False rest by simp
    have sub: "set rest \<subseteq> set (timers s)" unfolding rest by (rule set_remove1_subset)
    have le: "max (now s) due \<le> fst tm" using nw least tmin tt by auto
    have "awaiting p tm (s\<lparr>timers := rest, now := max (now s) due\<rparr>)"
      using a in_rest sub le by (rule awaiting_timers_now)
    then have "awaiting p tm (fire t (s\<lparr>timers := rest\<rparr>))"
      using q by (simp add: tt fire_def awaiting_resolve awaiting_reject)
    then show ?thesis by (simp add: lifecycle_def)
  qed
qed

lemma lifecycle_step:
  assumes "lifecycle p tm s" and "next_timer (timers s) = Some (t, rest)"
    and "task_pid (snd tm) = p"
  shows "lifecycle p tm (drain (fire t (s\<lparr>timers := rest\<rparr>)))"
proof (rule lifecycle_drain)
  show "lifecycle p tm (fire t (s\<lparr>timers := rest\<rparr>))"
  proof (cases "awaiting p tm s")
    case True
    then show ?thesis using assms(2,3) by (rule awaiting_fire)
  next
    case False
    with assms(1) have "settled_as p (fst tm) (task_outcome (snd tm)) s"
      by (simp add: lifecycle_def)
    then have "settled_as p (fst tm) (task_outcome (snd tm)) (fire t (s\<lparr>timers := rest\<rparr>))"
      by (intro settled_as_fire) simp
    then show ?thesis by (simp add: lifecycle_def)
  qed
qed

lemma fetchData_awaiting:
  assumes "fresh (length (promises s)) s"
  shows "awaiting (length (promises s))
           (now s + due_of (n, d, f), FetchTimeout (length (promises s)) n (fails_of (n, d, f)))
           (snd (fetchData n d f s))"
  using assms
  by (auto simp: fetchData_eq awaiting_def fresh_def untouched_def is_pending_def nth_append)

lemma fetchData_lifecycle:
  assumes "fresh (length (promises s)) s"
  shows "fst (fetchData n d f s) = length (promises s)"
    and "status_of (fst (fetchData n d f s)) (snd (fetchData n d f s)) = Pending"
    and "status_of (fst (fetchData n d f s)) (run (snd (fetchData n d f s))) = outcome_of (n, d, f)"
    and "settlements (fst (fetchData n d f s)) (trace (run (snd (fetchData n d f s))))
           = [(now s + due_of (n, d, f), outcome_of (n, d, f))]"
    and "status_of (fst (fetchData n d f s)) (run_for k (snd (fetchData n d f s)))
           \<in> {Pending, outcome_of (n, d, f)}"
    and "settlements (fst (fetchData n d f s)) (trace (run_for k (snd (fetchData n d f s))))
           = (if status_of (fst (fetchData n d f s)) (run_for k (snd (fetchData n d f s))) = Pending
              then [] else [(now s + due_of (n, d, f), outcome_of (n, d, f))])"
proof -
  let ?p = "length (promises s)"
  let ?tm = "(now s + due_of (n, d, f), FetchTimeout ?p n (fails_of (n, d, f)))"
  let ?s1 = "snd (fetchData n d f s)"
  have p: "fst (fetchData n d f s) = ?p" by (simp add: fetchData_eq)
  have out: "task_outcome (snd ?tm) = outcome_of (n, d, f)"
    by (simp add: task_outcome_def outcome_of_def name_of_def)
  have a: "awaiting ?p ?tm ?s1" using assms by (rule fetchData_awaiting)
  then have l: "lifecycle ?p ?tm (drain ?s1)"
    by (intro lifecycle_drain) (simp add: lifecycle_def)
  have step: "\<And>s t rest. lifecycle ?p ?tm s \<Longrightarrow> next_timer (timers s) = Some (t, rest)
      \<Longrightarrow> lifecycle ?p ?tm (drain (fire t (s\<lparr>timers := rest\<rparr>)))"
    by (rule lifecycle_step) simp_all
  from l step have "lifecycle ?p ?tm (run ?s1) \<and> timers (run ?s1) = []"
    by (rule run_invariant)
  then have fin: "settled_as ?p (now s + due_of (n, d, f)) (outcome_of (n, d, f)) (run ?s1)"
    using out by (auto simp: lifecycle_def awaiting_def)
  from l step have pre: "lifecycle ?p ?tm (run_for k ?s1)"
    by (rule run_for_invariant)
  show "fst (fetchData n d f s) = ?p" by (rule p)
  show "status_of (fst (fetchData n d f s)) ?s1 = Pending"
    using a by (simp add: p awaiting_def is_pending_def status_of_def)
  show "status_of (fst (fetchData n d f s)) (run ?s1) = outcome_of (n, d, f)"
    using fin by (simp add: p settled_as_def status_of_def)
  show "settlements (fst (fetchData n d f s)) (trace (run ?s1))
           = [(now s + due_of (n, d, f), outcome_of (n, d, f))]"
    using fin by (simp add: p settled_as_def)
  show "status_of (fst (fetchData n d f s)) (run_for k ?s1) \<in> {Pending, outcome_of (n, d, f)}"
    using pre out by (auto simp: p lifecycle_def awaiting_def settled_as_def is_pending_def status_of_def)
  show "settlements (fst (fetchData n d f s)) (trace (run_for k ?s1))
           = (if status_of (fst (fetchData n d f s)) (run_for k ?s1) = Pending
              then [] else [(now s + due_of (n, d, f), outcome_of (n, d, f))])"
    using pre out by (auto simp: p lifecycle_def awaiting_def settled_as_def is_pending_def status_of_def)
qed

lemma fresh_init: "fresh p init"
  by (simp add: fresh_def untouched_def init_def)

section \<open>A combinator among the other activity of the script\<close>

text \<open>
  A combinator called in a sound state allocates its promises from \<open>L\<close> and its aggregate
  record at \<open>A\<close>, the numbers of promises and records of that state. Everything older
  stays below \<open>L\<close> and \<open>A\<close> and may run at any time; \<open>ours L s\<close> are the timer callbacks
  of the combinator's own inputs, \<open>same_above L A\<close> relates two states that agree on the
  combinator's promises, records and timers.
\<close>

definition ours :: "nat \<Rightarrow> state \<Rightarrow> (nat \<times> task) list" where
  "ours L s = filter (\<lambda>t. L \<le> task_pid (snd t)) (timers s)"

definition same_above :: "nat \<Rightarrow> nat \<Rightarrow> state \<Rightarrow> state \<Rightarrow> bool" where
  "same_above L A s s' \<longleftrightarrow>
     length (promises s') = length (promises s) \<and> length (aggs s') = length (aggs s)
     \<and> (\<forall>p\<ge>L. promises s' ! p = promises s ! p)
     \<and> (\<forall>a\<ge>A. aggs s' ! a = aggs s ! a)
     \<and> ours L s' = ours L s"

lemma ours_simps [simp]:
  "ours L (s\<lparr>promises := ps\<rparr>) = ours L s"
  "ours L (s\<lparr>aggs := gs\<rparr>) = ours L s"
  "ours L (s\<lparr>microtasks := js\<rparr>) = ours L s"
  "ours L (s\<lparr>trace := es\<rparr>) = ours L s"
  "ours L (s\<lparr>now := t\<rparr>) = ours L s"
  "ours L (resolve q v s) = ours L s"
  "ours L (reject q v s) = ours L s"
  by (simp_all add: ours_def)

lemma same_above_refl [simp]: "same_above L A s s"
  by (simp add: same_above_def)

lemma same_above_trans: "same_above L A s s' \<Longrightarrow> same_above L A s' s'' \<Longrightarrow> same_above L A s s''"
  by (simp add: same_above_def)

lemma sound_init: "sound init"
  by (simp add: sound_def others_ok_def init_def)

lemma below_avoids: "below L A h \<Longrightarrow> L \<le> p \<Longrightarrow> avoids p A h"
  by (cases h) auto

lemma settlements_below:
  "\<forall>e \<in> set es. event_below L e \<Longrightarrow> L \<le> p \<Longrightarrow> settlements p es = []"
proof (induction es)
  case Nil
  show ?case by simp
next
  case (Cons e es)
  then show ?case by (cases e) auto
qed

lemma sound_fresh:
  assumes "sound s" and "length (promises s) \<le> p"
  shows "fresh p s"
proof -
  let ?L = "length (promises s)" and ?A = "length (aggs s)"
  from assms(1) have ok: "others_ok ?L ?A s"
    and tm: "\<forall>t \<in> set (timers s). task_pid (snd t) < ?L"
    and ev: "\<forall>e \<in> set (trace s). event_below ?L e"
    by (simp_all add: sound_def)
  have a: "\<forall>g \<in> set (aggs s). result g \<noteq> p"
  proof
    fix g assume "g \<in> set (aggs s)"
    then obtain a where "a < ?A" "g = aggs s ! a" by (auto simp: in_set_conv_nth)
    with ok assms(2) show "result g \<noteq> p" by (auto simp: others_ok_def)
  qed
  have j: "\<forall>j \<in> set (microtasks s). job_avoids p ?A j"
  proof
    fix j assume "j \<in> set (microtasks s)"
    with ok have "job_below ?L ?A j" by (simp add: others_ok_def)
    with assms(2) show "job_avoids p ?A j"
      by (cases j) (auto intro: below_avoids)
  qed
  have r: "\<forall>q \<in> set (promises s). \<forall>r \<in> set (reactions q). reaction_avoids p ?A r"
  proof (intro ballI)
    fix q r assume "q \<in> set (promises s)" "r \<in> set (reactions q)"
    then obtain i where "i < ?L" "r \<in> set (reactions (promises s ! i))"
      by (auto simp: in_set_conv_nth)
    with ok have "reaction_below ?L ?A r" by (simp add: others_ok_def)
    with assms(2) show "reaction_avoids p ?A r"
      by (cases r) (auto intro: below_avoids)
  qed
  have t: "\<forall>t \<in> set (timers s). task_pid (snd t) \<noteq> p"
    using tm assms(2) by auto
  from a j r t settlements_below [OF ev assms(2)] show ?thesis
    by (simp add: fresh_def untouched_def)
qed

subsection \<open>What the others do leaves the rest alone\<close>

lemma others_ok_jobs:
  assumes "others_ok L A s" and "q < L"
  shows "\<forall>j \<in> set (map (\<lambda>r. case r of Reaction f _ d \<Rightarrow> Job f v d) (reactions (promises s ! q))).
           job_below L A j"
    and "\<forall>j \<in> set (map (\<lambda>r. case r of Reaction _ g d \<Rightarrow> Job g v d) (reactions (promises s ! q))).
           job_below L A j"
proof -
  have *: "reaction_below L A r" if "r \<in> set (reactions (promises s ! q))" for r
    using assms that by (simp add: others_ok_def)
  show "\<forall>j \<in> set (map (\<lambda>r. case r of Reaction f _ d \<Rightarrow> Job f v d) (reactions (promises s ! q))).
           job_below L A j"
  proof
    fix j assume "j \<in> set (map (\<lambda>r. case r of Reaction f _ d \<Rightarrow> Job f v d) (reactions (promises s ! q)))"
    then obtain r where "r \<in> set (reactions (promises s ! q))" "j = (case r of Reaction f _ d \<Rightarrow> Job f v d)"
      by auto
    with * [of r] show "job_below L A j" by (cases r) simp
  qed
  show "\<forall>j \<in> set (map (\<lambda>r. case r of Reaction _ g d \<Rightarrow> Job g v d) (reactions (promises s ! q))).
           job_below L A j"
  proof
    fix j assume "j \<in> set (map (\<lambda>r. case r of Reaction _ g d \<Rightarrow> Job g v d) (reactions (promises s ! q)))"
    then obtain r where "r \<in> set (reactions (promises s ! q))" "j = (case r of Reaction _ g d \<Rightarrow> Job g v d)"
      by auto
    with * [of r] show "job_below L A j" by (cases r) simp
  qed
qed

lemma frame_resolve:
  assumes "others_ok L A s" and "q < L"
  shows "others_ok L A (resolve q v s) \<and> same_above L A s (resolve q v s)"
proof (cases "is_pending q s")
  case False
  then show ?thesis using assms by (simp add: resolve_def)
next
  case True
  have "others_ok L A (resolve q v s)"
    using assms True others_ok_jobs(1) [OF assms, of v]
    by (auto simp: others_ok_def resolve_def nth_list_update)
  moreover have "same_above L A s (resolve q v s)"
    using assms True by (simp add: same_above_def resolve_def)
  ultimately show ?thesis by simp
qed

lemma frame_reject:
  assumes "others_ok L A s" and "q < L"
  shows "others_ok L A (reject q v s) \<and> same_above L A s (reject q v s)"
proof (cases "is_pending q s")
  case False
  then show ?thesis using assms by (simp add: reject_def)
next
  case True
  have "others_ok L A (reject q v s)"
    using assms True others_ok_jobs(2) [OF assms, of v]
    by (auto simp: others_ok_def reject_def nth_list_update)
  moreover have "same_above L A s (reject q v s)"
    using assms True by (simp add: same_above_def reject_def)
  ultimately show ?thesis by simp
qed

lemma frame_store_element:
  assumes "others_ok L A s" and "a < A"
  shows "others_ok L A (store_element a i x s) \<and> same_above L A s (store_element a i x s)"
proof -
  define g where "g = aggs s ! a"
  define g' where "g' = Agg ((vals g)[i := x]) (remaining g - 1) ((called g)[i := True]) (result g)"
  define s1 where "s1 = s\<lparr>aggs := (aggs s)[a := g']\<rparr>"
  from assms have r: "result g < L" by (simp add: others_ok_def g_def)
  have ok1: "others_ok L A s1"
    using assms r by (auto simp: others_ok_def s1_def g'_def nth_list_update)
  have sa1: "same_above L A s s1"
    using assms by (simp add: same_above_def s1_def)
  have "result g' < L" using r by (simp add: g'_def)
  from frame_resolve [OF ok1 this, of "Arr (vals g')"]
  have "others_ok L A (resolve (result g') (Arr (vals g')) s1)"
    "same_above L A s (resolve (result g') (Arr (vals g')) s1)"
    using sa1 by (auto intro: same_above_trans)
  then show ?thesis
    using assms(1) ok1 sa1
    by (simp add: store_element_def Let_def g_def [symmetric] g'_def [symmetric] s1_def [symmetric])
qed

lemma frame_call_handler:
  assumes "others_ok L A s" and "below L A h"
  shows "others_ok L A (snd (call_handler h v s)) \<and> same_above L A s (snd (call_handler h v s))"
  using assms
  by (cases h)
    (simp_all add: frame_resolve frame_reject frame_store_element,
      simp add: others_ok_def same_above_def)

lemma frame_run_job:
  assumes "others_ok L A s" and "microtasks s = j # js"
  shows "others_ok L A (run_job j (s\<lparr>microtasks := js\<rparr>))
       \<and> same_above L A s (run_job j (s\<lparr>microtasks := js\<rparr>))"
proof (cases j)
  case (Job h v d)
  from assms Job have b: "below L A h" "d < L" by (auto simp: others_ok_def)
  have ok0: "others_ok L A (s\<lparr>microtasks := js\<rparr>)"
    using assms by (auto simp: others_ok_def)
  have sa0: "same_above L A s (s\<lparr>microtasks := js\<rparr>)"
    by (simp add: same_above_def)
  obtain c s' where c: "call_handler h v (s\<lparr>microtasks := js\<rparr>) = (c, s')"
    by (cases "call_handler h v (s\<lparr>microtasks := js\<rparr>)")
  with frame_call_handler [OF ok0 b(1), of v]
  have s': "others_ok L A s'" "same_above L A (s\<lparr>microtasks := js\<rparr>) s'" by simp_all
  then have sa': "same_above L A s s'" using sa0 by (blast intro: same_above_trans)
  show ?thesis
  proof (cases c)
    case (Normal r)
    from frame_resolve [OF s'(1) b(2), of r] sa' show ?thesis
      using Job c Normal by (auto intro: same_above_trans)
  next
    case (Throw e)
    from frame_reject [OF s'(1) b(2), of e] sa' show ?thesis
      using Job c Throw by (auto intro: same_above_trans)
  qed
qed

lemma frame_drain:
  "others_ok L A s \<Longrightarrow>
   others_ok L A (drain s) \<and> same_above L A s (drain s) \<and> microtasks (drain s) = []"
proof (induction s rule: drain.induct)
  case (1 s)
  show ?case
  proof (cases "microtasks s")
    case Nil
    then show ?thesis using "1.prems" by (simp add: drain_Nil)
  next
    case (Cons j js)
    from frame_run_job [OF "1.prems" Cons]
    have ok: "others_ok L A (run_job j (s\<lparr>microtasks := js\<rparr>))"
      and sa: "same_above L A s (run_job j (s\<lparr>microtasks := js\<rparr>))" by simp_all
    from "1.IH" [OF Cons ok] sa show ?thesis
      using Cons by (auto simp: drain_Cons intro: same_above_trans)
  qed
qed

subsection \<open>The state after the calls of an array literal\<close>

definition timer_at :: "nat \<Rightarrow> nat \<Rightarrow> call_args list \<Rightarrow> nat \<Rightarrow> nat \<times> task" where
  "timer_at L t0 cs i =
     (t0 + due_of (cs ! i), FetchTimeout (L + i) (name_of (cs ! i)) (fails_of (cs ! i)))"

lemma timer_at_inj: "timer_at L t0 cs i = timer_at L t0 cs j \<Longrightarrow> i = j"
  by (simp add: timer_at_def)

lemma timer_at_pid [simp]: "task_pid (snd (timer_at L t0 cs i)) = L + i"
  by (simp add: timer_at_def)

lemma timer_at_fold:
  "(\<lambda>i. (t0 + due_of (cs ! i), FetchTimeout (L + i) (name_of (cs ! i)) (fails_of (cs ! i))))
     = timer_at L t0 cs"
  by (simp add: timer_at_def fun_eq_iff)

lemma fetch_each_at:
  "fetch_each cs s =
     ([length (promises s) ..< length (promises s) + length cs],
      s\<lparr>promises := promises s @ replicate (length cs) (Promise Pending []),
        timers := timers s @ map (timer_at (length (promises s)) (now s) cs) [0 ..< length cs]\<rparr>)"
  by (simp add: fetch_each_eq timer_at_fold)

lemma ours_sound:
  assumes "\<forall>t \<in> set ts. task_pid (snd t) < L"
  shows "filter (\<lambda>t. L \<le> task_pid (snd t)) (ts @ map (timer_at L t0 cs) [0 ..< n])
         = map (timer_at L t0 cs) [0 ..< n]"
proof -
  have "filter (\<lambda>t. L \<le> task_pid (snd t)) ts = []"
    using assms by (auto simp: filter_empty_conv)
  moreover have "filter (\<lambda>t. L \<le> task_pid (snd t)) (map (timer_at L t0 cs) [0 ..< n])
                 = map (timer_at L t0 cs) [0 ..< n]"
    by (simp add: filter_map o_def)
  ultimately show ?thesis by simp
qed

subsection \<open>The state after a combinator has registered its reactions\<close>

definition wired :: "(nat \<Rightarrow> reaction) \<Rightarrow> nat \<Rightarrow> nat \<Rightarrow> nat \<Rightarrow> state \<Rightarrow> bool" where
  "wired H L n i s \<longleftrightarrow>
     length (promises s) = L + n + 1 + i
     \<and> (\<forall>j<i. promises s ! (L + j) = Promise Pending [H j])
     \<and> (\<forall>j. i \<le> j \<and> j < n + 1 + i \<longrightarrow> promises s ! (L + j) = Promise Pending [])"

lemma promise_then_wired:
  assumes "wired (\<lambda>j. Reaction (F j) (G j) (L + n + 1 + j)) L n i s" and "i < n"
  shows "promise_then (L + i) (F i) (G i) s
         = (L + n + 1 + i, s\<lparr>promises := (promises s @ [Promise Pending []])
                                          [L + i := Promise Pending [Reaction (F i) (G i) (L + n + 1 + i)]]\<rparr>)"
  using assms
  by (simp add: wired_def promise_then_def new_promise_def perform_then_def nth_append)

lemma wired_step:
  assumes "wired (\<lambda>j. Reaction (F j) (G j) (L + n + 1 + j)) L n i s" and "i < n"
  shows "wired (\<lambda>j. Reaction (F j) (G j) (L + n + 1 + j)) L n (Suc i)
           (s\<lparr>promises := (promises s @ [Promise Pending []])
                              [L + i := Promise Pending [Reaction (F i) (G i) (L + n + 1 + i)]]\<rparr>)"
  using assms
  by (auto simp: wired_def nth_list_update nth_append less_Suc_eq)

lemma attach_each_wired:
  assumes "wired (\<lambda>j. Reaction (F j) (G j) (L + n + 1 + j)) L n i s"
    and "aggs s ! A = Agg (replicate i Undefined) (1 + int i) (replicate i False) r"
    and "A < length (aggs s)" and "i \<le> n"
  shows "wired (\<lambda>j. Reaction (F j) (G j) (L + n + 1 + j)) L n n
           (attach_each F G A i [L + i ..< L + n] s)
       \<and> aggs (attach_each F G A i [L + i ..< L + n] s) ! A
           = Agg (replicate n Undefined) (1 + int n) (replicate n False) r
       \<and> length (aggs (attach_each F G A i [L + i ..< L + n] s)) = length (aggs s)
       \<and> take A (aggs (attach_each F G A i [L + i ..< L + n] s)) = take A (aggs s)
       \<and> take L (promises (attach_each F G A i [L + i ..< L + n] s)) = take L (promises s)
       \<and> timers (attach_each F G A i [L + i ..< L + n] s) = timers s
       \<and> microtasks (attach_each F G A i [L + i ..< L + n] s) = microtasks s
       \<and> now (attach_each F G A i [L + i ..< L + n] s) = now s
       \<and> trace (attach_each F G A i [L + i ..< L + n] s) = trace s"
  using assms
proof (induction "n - i" arbitrary: i s)
  case 0
  then show ?case by simp
next
  case (Suc k)
  then have lt: "i < n" by simp
  let ?s1 = "s\<lparr>aggs := (aggs s)[A := Agg (replicate (Suc i) Undefined) (1 + int (Suc i))
                                         (replicate (Suc i) False) r]\<rparr>"
  let ?s2 = "?s1\<lparr>promises := (promises s @ [Promise Pending []])
                              [L + i := Promise Pending [Reaction (F i) (G i) (L + n + 1 + i)]]\<rparr>"
  have w1: "wired (\<lambda>j. Reaction (F j) (G j) (L + n + 1 + j)) L n i ?s1"
    using Suc.prems(1) by (simp add: wired_def)
  have pt: "promise_then (L + i) (F i) (G i) ?s1 = (L + n + 1 + i, ?s2)"
    using promise_then_wired [OF w1 lt] by simp
  have w2: "wired (\<lambda>j. Reaction (F j) (G j) (L + n + 1 + j)) L n (Suc i) ?s2"
    using wired_step [OF w1 lt] by simp
  have a2: "aggs ?s2 ! A = Agg (replicate (Suc i) Undefined) (1 + int (Suc i)) (replicate (Suc i) False) r"
    "A < length (aggs ?s2)"
    using Suc.prems(3) by simp_all
  have unfold: "attach_each F G A i [L + i ..< L + n] s
                = attach_each F G A (Suc i) [L + Suc i ..< L + n] ?s2"
    using lt Suc.prems(2) pt
    by (simp add: upt_conv_Cons Let_def replicate_append_same del: upt_Suc)
  have "k = n - Suc i" using Suc.hyps(2) by simp
  moreover have "L \<le> length (promises s)"
    using Suc.prems(1) by (simp add: wired_def)
  ultimately show ?case
    using Suc.hyps(1) [OF _ w2 a2] lt unfolding unfold by simp
qed


subsection \<open>One turn of the loop: a timer callback and its jobs\<close>

definition inflight :: "nat \<Rightarrow> nat \<Rightarrow> nat \<Rightarrow> (nat \<Rightarrow> reaction) \<Rightarrow> call_args list \<Rightarrow> state \<Rightarrow> bool" where
  "inflight L A t0 H cs s \<longleftrightarrow>
     others_ok L A s
     \<and> length (promises s) = L + 2 * length cs + 1
     \<and> distinct (ours L s)
     \<and> set (ours L s) \<subseteq> timer_at L t0 cs ` {..<length cs}
     \<and> (\<forall>i<length cs. timer_at L t0 cs i \<in> set (ours L s) \<longrightarrow>
            promises s ! (L + i) = Promise Pending [H i]
          \<and> promises s ! (L + length cs + 1 + i) = Promise Pending [])
     \<and> (\<forall>i<length cs. timer_at L t0 cs i \<notin> set (ours L s) \<longrightarrow>
            promises s ! (L + i) = Promise (outcome_of (cs ! i)) []
          \<and> promises s ! (L + length cs + 1 + i) = Promise (Fulfilled Undefined) [])
     \<and> reactions (promises s ! (L + length cs)) = []"

lemma inflight_stable:
  assumes "inflight L A t0 H cs s" and "same_above L A s s'" and "others_ok L A s'"
  shows "inflight L A t0 H cs s'"
  using assms by (simp add: inflight_def same_above_def)

text \<open>A turn of the loop that runs a timer callback of the others.\<close>

lemma foreign_turn:
  assumes ok: "others_ok L A s" and nt: "next_timer (timers s) = Some (t, rest)"
    and f: "task_pid (snd t) < L"
  shows "others_ok L A (drain (fire t (s\<lparr>timers := rest\<rparr>)))
       \<and> same_above L A s (drain (fire t (s\<lparr>timers := rest\<rparr>)))
       \<and> microtasks (drain (fire t (s\<lparr>timers := rest\<rparr>))) = []"
proof -
  from next_timer_Some [OF nt] have rest: "rest = remove1 t (timers s)" by simp
  obtain due q nm fl where t: "t = (due, FetchTimeout q nm fl)"
    by (cases t, cases "snd t") auto
  with f have q: "q < L" by simp
  define s1 where "s1 = s\<lparr>timers := rest, now := max (now s) due\<rparr>"
  have "t \<notin> set (filter (\<lambda>t. L \<le> task_pid (snd t)) (timers s))"
    using f by simp
  then have "filter (\<lambda>t. L \<le> task_pid (snd t)) rest = filter (\<lambda>t. L \<le> task_pid (snd t)) (timers s)"
    unfolding rest by (simp add: filter_remove1 remove1_idem)
  then have sa1: "same_above L A s s1"
    by (simp add: same_above_def s1_def ours_def)
  have ok1: "others_ok L A s1"
    using ok by (simp add: others_ok_def s1_def)
  have fire: "fire t (s\<lparr>timers := rest\<rparr>)
              = (if fl then reject q (Str (''Error fetching data from '' @ nm)) s1
                 else resolve q (Str (nm @ '' data'')) s1)"
    by (simp add: fire_def t s1_def)
  have "others_ok L A (fire t (s\<lparr>timers := rest\<rparr>))
        \<and> same_above L A s1 (fire t (s\<lparr>timers := rest\<rparr>))"
    unfolding fire using frame_resolve [OF ok1 q] frame_reject [OF ok1 q] by simp
  then have ok2: "others_ok L A (fire t (s\<lparr>timers := rest\<rparr>))"
    and sa2: "same_above L A s (fire t (s\<lparr>timers := rest\<rparr>))"
    using sa1 by (auto intro: same_above_trans)
  from frame_drain [OF ok2] sa2 show ?thesis
    by (auto intro: same_above_trans)
qed

text \<open>A turn of the loop that runs one of the watched timer callbacks.\<close>

lemma macro_step:
  assumes inv: "inflight L A t0 (\<lambda>i. Reaction (F i) (G i) (L + length cs + 1 + i)) cs s"
    and quiet: "microtasks s = []"
    and nt: "next_timer (timers s) = Some (t, rest)"
    and mine: "L \<le> task_pid (snd t)"
  obtains k where "k < length cs" and "t = timer_at L t0 cs k"
    and "timer_at L t0 cs k \<in> set (ours L s)"
    and "ours L (s\<lparr>timers := rest\<rparr>) = remove1 t (ours L s)"
    and "\<forall>u \<in> set (ours L s). due_of (cs ! k) \<le> fst u - t0"
    and "drain (fire t (s\<lparr>timers := rest\<rparr>))
         = drain (run_job (Job (if fails_of (cs ! k) then G k else F k) (payload_of (cs ! k))
                               (L + length cs + 1 + k))
                   (s\<lparr>timers := rest,
                      now := max (now s) (t0 + due_of (cs ! k)),
                      promises := (promises s)[L + k := Promise (outcome_of (cs ! k)) []],
                      microtasks := [],
                      trace := trace s @ [Settled (max (now s) (t0 + due_of (cs ! k))) (L + k)
                                            (outcome_of (cs ! k))]\<rparr>))"
proof -
  from next_timer_Some [OF nt] have t: "t \<in> set (timers s)" and rest: "rest = remove1 t (timers s)"
    and least: "\<forall>u \<in> set (timers s). fst t \<le> fst u"
    by simp_all
  from t mine have to: "t \<in> set (ours L s)" by (simp add: ours_def)
  with inv obtain k where k: "k < length cs" "t = timer_at L t0 cs k"
    by (auto simp: inflight_def)
  have r: "ours L (s\<lparr>timers := rest\<rparr>) = remove1 t (ours L s)"
    by (simp add: ours_def rest filter_remove1)
  from inv k to have pk: "promises s ! (L + k) = Promise Pending [Reaction (F k) (G k) (L + length cs + 1 + k)]"
    and len: "length (promises s) = L + 2 * length cs + 1"
    by (simp_all add: inflight_def)
  let ?s = "s\<lparr>timers := rest, now := max (now s) (t0 + due_of (cs ! k))\<rparr>"
  have pend: "is_pending (L + k) ?s"
    using pk len k by (simp add: is_pending_def)
  define j where "j = Job (if fails_of (cs ! k) then G k else F k) (payload_of (cs ! k))
                               (L + length cs + 1 + k)"
  define sa where "sa = s\<lparr>timers := rest,
                      now := max (now s) (t0 + due_of (cs ! k)),
                      promises := (promises s)[L + k := Promise (outcome_of (cs ! k)) []],
                      microtasks := [],
                      trace := trace s @ [Settled (max (now s) (t0 + due_of (cs ! k))) (L + k)
                                            (outcome_of (cs ! k))]\<rparr>"
  have f: "fire t (s\<lparr>timers := rest\<rparr>) = sa\<lparr>microtasks := [j]\<rparr>"
    using pend pk quiet k(2)
    by (simp add: fire_def timer_at_def resolve_def reject_def outcome_of_def payload_of_def
        j_def sa_def)
  have "sa\<lparr>microtasks := [j], microtasks := []\<rparr> = sa"
    by (simp add: sa_def)
  then have "drain (fire t (s\<lparr>timers := rest\<rparr>)) = drain (run_job j sa)"
    unfolding f by (subst drain_Cons [of _ j "[]"]) simp_all
  then have d: "drain (fire t (s\<lparr>timers := rest\<rparr>))
         = drain (run_job (Job (if fails_of (cs ! k) then G k else F k) (payload_of (cs ! k))
                               (L + length cs + 1 + k))
                   (s\<lparr>timers := rest,
                      now := max (now s) (t0 + due_of (cs ! k)),
                      promises := (promises s)[L + k := Promise (outcome_of (cs ! k)) []],
                      microtasks := [],
                      trace := trace s @ [Settled (max (now s) (t0 + due_of (cs ! k))) (L + k)
                                            (outcome_of (cs ! k))]\<rparr>))"
    unfolding j_def sa_def .
  have "\<forall>u \<in> set (ours L s). due_of (cs ! k) \<le> fst u - t0"
  proof
    fix u assume "u \<in> set (ours L s)"
    then have "u \<in> set (timers s)" by (simp add: ours_def)
    with least have "fst t \<le> fst u" by simp
    then show "due_of (cs ! k) \<le> fst u - t0" by (simp add: k(2) timer_at_def)
  qed
  with d show thesis
    using that [of k] k to r by simp
qed

lemma inflight_after:
  assumes inv: "inflight L A t0 H cs s"
    and k: "k < length cs" "timer_at L t0 cs k \<in> set (ours L s)"
    and rest: "ours L s' = remove1 (timer_at L t0 cs k) (ours L s)"
    and s': "microtasks s' = []" "length (promises s') = length (promises s)"
      "promises s' ! (L + k) = Promise (outcome_of (cs ! k)) []"
      "promises s' ! (L + length cs + 1 + k) = Promise (Fulfilled Undefined) []"
      "\<forall>i. i \<noteq> L + k \<and> i \<noteq> L + length cs + 1 + k \<and> i \<noteq> L + length cs \<longrightarrow>
           promises s' ! i = promises s ! i"
      "reactions (promises s' ! (L + length cs)) = []"
      "length (aggs s') = length (aggs s)" "\<forall>a<A. aggs s' ! a = aggs s ! a"
  shows "inflight L A t0 H cs s'"
  unfolding inflight_def
proof (intro conjI allI impI)
  from inv have d: "distinct (ours L s)" and sub: "set (ours L s) \<subseteq> timer_at L t0 cs ` {..<length cs}"
    and ok: "others_ok L A s" and len: "length (promises s) = L + 2 * length cs + 1"
    by (simp_all add: inflight_def)
  have sr: "set (ours L s') = set (ours L s) - {timer_at L t0 cs k}"
    using d rest by simp
  show "others_ok L A s'"
    using ok s' by (auto simp: others_ok_def)
  show "length (promises s') = L + 2 * length cs + 1"
    using len s' by simp
  show "distinct (ours L s')" using d rest by simp
  show "set (ours L s') \<subseteq> timer_at L t0 cs ` {..<length cs}"
    using sub sr by auto
  show "reactions (promises s' ! (L + length cs)) = []" by (rule s')
  {
    fix i assume i: "i < length cs" "timer_at L t0 cs i \<in> set (ours L s')"
    then have ik: "i \<noteq> k" and old: "timer_at L t0 cs i \<in> set (ours L s)"
      using sr by auto
    have ne: "L + i \<noteq> L + k" "L + i \<noteq> L + length cs + 1 + k" "L + i \<noteq> L + length cs"
      "L + length cs + 1 + i \<noteq> L + k" "L + length cs + 1 + i \<noteq> L + length cs + 1 + k"
      "L + length cs + 1 + i \<noteq> L + length cs"
      using i k ik by simp_all
    from inv i old have "promises s ! (L + i) = Promise Pending [H i]"
      "promises s ! (L + length cs + 1 + i) = Promise Pending []"
      by (simp_all add: inflight_def)
    then show "promises s' ! (L + i) = Promise Pending [H i]"
      "promises s' ! (L + length cs + 1 + i) = Promise Pending []"
      using s'(5) ne by simp_all
  }
  {
    fix i assume i: "i < length cs" "timer_at L t0 cs i \<notin> set (ours L s')"
    show "promises s' ! (L + i) = Promise (outcome_of (cs ! i)) []"
    proof (cases "i = k")
      case True
      then show ?thesis using s' by simp
    next
      case False
      then have "timer_at L t0 cs i \<noteq> timer_at L t0 cs k" using timer_at_inj by blast
      then have old: "timer_at L t0 cs i \<notin> set (ours L s)" using i sr by auto
      have "L + i \<noteq> L + k" "L + i \<noteq> L + length cs + 1 + k" "L + i \<noteq> L + length cs"
        using i k False by simp_all
      then show ?thesis using inv i old s'(5) by (simp add: inflight_def)
    qed
    show "promises s' ! (L + length cs + 1 + i) = Promise (Fulfilled Undefined) []"
    proof (cases "i = k")
      case True
      then show ?thesis using s' by simp
    next
      case False
      then have "timer_at L t0 cs i \<noteq> timer_at L t0 cs k" using timer_at_inj by blast
      then have old: "timer_at L t0 cs i \<notin> set (ours L s)" using i sr by auto
      have "L + length cs + 1 + i \<noteq> L + k" "L + length cs + 1 + i \<noteq> L + length cs + 1 + k"
        "L + length cs + 1 + i \<noteq> L + length cs" using i k False by simp_all
      then show ?thesis using inv i old s'(5) by (simp add: inflight_def)
    qed
  }
qed

subsection \<open>Invariant of the loop under \<^verbatim>\<open>Promise.race\<close>\<close>






text \<open>The state after the array literal and the combinator's registrations.\<close>

lemma wired_inflight:
  assumes w: "wired H L (length cs) (length cs) s"
    and o: "ours L s = map (timer_at L t0 cs) [0 ..< length cs]"
    and ok: "others_ok L A s"
  shows "inflight L A t0 H cs s"
proof -
  have inj: "inj_on (timer_at L t0 cs) {0 ..< length cs}"
    by (simp add: inj_on_def timer_at_def)
  have d: "distinct (ours L s)"
    unfolding o by (simp add: distinct_map inj)
  have mem: "\<And>i. i < length cs \<Longrightarrow> timer_at L t0 cs i \<in> set (ours L s)"
    unfolding o by simp
  have sub: "set (ours L s) \<subseteq> timer_at L t0 cs ` {..<length cs}"
    unfolding o by auto
  have hi: "promises s ! (L + length cs + 1 + i) = Promise Pending []" if "i < length cs" for i
  proof -
    from w have "length cs \<le> length cs + 1 + i \<and> length cs + 1 + i < length cs + 1 + length cs
        \<longrightarrow> promises s ! (L + (length cs + 1 + i)) = Promise Pending []"
      unfolding wired_def by blast
    with that show ?thesis by (simp add: add.assoc)
  qed
  have lo: "promises s ! (L + i) = Promise Pending [H i]" if "i < length cs" for i
    using w that by (simp add: wired_def)
  have rn: "reactions (promises s ! (L + length cs)) = []"
  proof -
    from w have "length cs \<le> length cs \<and> length cs < length cs + 1 + length cs
        \<longrightarrow> promises s ! (L + length cs) = Promise Pending []"
      unfolding wired_def by blast
    then show ?thesis by simp
  qed
  have len: "length (promises s) = L + 2 * length cs + 1"
    using w by (simp add: wired_def)
  show ?thesis
    unfolding inflight_def using ok d sub mem hi lo rn len by simp
qed

lemma others_ok_after:
  assumes s0: "sound s0"
    and len: "length (promises s0) \<le> length (promises s)" "length (aggs s0) \<le> length (aggs s)"
    and same: "take (length (promises s0)) (promises s) = promises s0"
      "take (length (aggs s0)) (aggs s) = aggs s0" "microtasks s = microtasks s0"
  shows "others_ok (length (promises s0)) (length (aggs s0)) s"
proof -
  let ?L = "length (promises s0)" and ?A = "length (aggs s0)"
  from s0 have ok: "others_ok ?L ?A s0" by (simp add: sound_def)
  have p: "promises s ! q = promises s0 ! q" if "q < ?L" for q
    using that same(1) by (metis nth_take)
  have a: "aggs s ! i = aggs s0 ! i" if "i < ?A" for i
    using that same(2) by (metis nth_take)
  show ?thesis
    using ok len same(3) by (simp add: others_ok_def p a)
qed




subsection \<open>Invariant of the loop under \<^verbatim>\<open>Promise.all\<close> and \<^verbatim>\<open>Promise.allSettled\<close>\<close>

lemma store_element_fields:
  assumes "aggs s ! A = g" and "A < length (aggs s)" and "\<not> called g ! i"
  shows "aggs (store_element A i x s)
           = (aggs s)[A := Agg ((vals g)[i := x]) (remaining g - 1) ((called g)[i := True]) (result g)]"
    and "promises (store_element A i x s)
           = (if remaining g = 1 \<and> is_pending (result g) s
              then (promises s)[result g := Promise (Fulfilled (Arr ((vals g)[i := x]))) []]
              else promises s)"
    and "microtasks (store_element A i x s)
           = (if remaining g = 1 \<and> is_pending (result g) s
              then microtasks s @ map (\<lambda>r. case r of Reaction f _ d \<Rightarrow> Job f (Arr ((vals g)[i := x])) d)
                                     (reactions (promises s ! result g))
              else microtasks s)"
    and "now (store_element A i x s) = now s"
    and "ours L (store_element A i x s) = ours L s"
  using assms
  by (simp_all add: store_element_def Let_def resolve_fields is_pending_def ours_def)

definition agg_inv ::
  "nat \<Rightarrow> nat \<Rightarrow> nat \<Rightarrow> (call_args \<Rightarrow> bool) \<Rightarrow> (call_args \<Rightarrow> val) \<Rightarrow> (nat \<Rightarrow> reaction)
     \<Rightarrow> call_args list \<Rightarrow> state \<Rightarrow> bool" where
  "agg_inv L A t0 counts entry H cs s \<longleftrightarrow>
     inflight L A t0 H cs s
     \<and> length (aggs s) = A + 1
     \<and> (\<exists>g. aggs s ! A = g
          \<and> length (vals g) = length cs \<and> length (called g) = length cs
          \<and> result g = L + length cs
          \<and> (\<forall>i<length cs. timer_at L t0 cs i \<in> set (ours L s) \<longrightarrow> \<not> called g ! i)
          \<and> (\<forall>i<length cs. timer_at L t0 cs i \<notin> set (ours L s) \<and> counts (cs ! i) \<longrightarrow>
                 vals g ! i = entry (cs ! i))
          \<and> ((\<forall>i<length cs. timer_at L t0 cs i \<notin> set (ours L s) \<longrightarrow> counts (cs ! i)) \<longrightarrow>
                 remaining g = int (length (ours L s))
               \<and> status (promises s ! (L + length cs))
                   = (if ours L s = [] then Fulfilled (Arr (vals g)) else Pending)))
     \<and> ((\<exists>i<length cs. timer_at L t0 cs i \<notin> set (ours L s) \<and> \<not> counts (cs ! i)) \<longrightarrow>
          (\<exists>i<length cs. timer_at L t0 cs i \<notin> set (ours L s) \<and> \<not> counts (cs ! i)
              \<and> status (promises s ! (L + length cs)) = Rejected (payload_of (cs ! i))))"

lemma agg_invI:
  assumes "inflight L A t0 H cs s" and "length (aggs s) = A + 1" and "aggs s ! A = g"
    and "length (vals g) = length cs" and "length (called g) = length cs"
    and "result g = L + length cs"
    and "\<forall>i<length cs. timer_at L t0 cs i \<in> set (ours L s) \<longrightarrow> \<not> called g ! i"
    and "\<forall>i<length cs. timer_at L t0 cs i \<notin> set (ours L s) \<and> counts (cs ! i) \<longrightarrow>
                 vals g ! i = entry (cs ! i)"
    and "(\<forall>i<length cs. timer_at L t0 cs i \<notin> set (ours L s) \<longrightarrow> counts (cs ! i)) \<longrightarrow>
                 remaining g = int (length (ours L s))
               \<and> status (promises s ! (L + length cs))
                   = (if ours L s = [] then Fulfilled (Arr (vals g)) else Pending)"
    and "(\<exists>i<length cs. timer_at L t0 cs i \<notin> set (ours L s) \<and> \<not> counts (cs ! i)) \<longrightarrow>
          (\<exists>i<length cs. timer_at L t0 cs i \<notin> set (ours L s) \<and> \<not> counts (cs ! i)
              \<and> status (promises s ! (L + length cs)) = Rejected (payload_of (cs ! i)))"
  shows "agg_inv L A t0 counts entry H cs s"
  unfolding agg_inv_def
  apply (intro conjI)
     apply (rule assms(1))
    apply (rule assms(2))
   apply (rule exI [of _ g])
   apply (intro conjI assms(3-9))
  apply (rule assms(10))
  done

lemma agg_inv_stable:
  assumes "agg_inv L A t0 counts entry H cs s" and "same_above L A s s'" and "others_ok L A s'"
  shows "agg_inv L A t0 counts entry H cs s'"
proof -
  from assms(2) have e: "ours L s' = ours L s" "aggs s' ! A = aggs s ! A"
    "length (aggs s') = length (aggs s)"
    "promises s' ! (L + length cs) = promises s ! (L + length cs)"
    by (simp_all add: same_above_def)
  from assms(1) inflight_stable [OF _ assms(2,3)] show ?thesis
    unfolding agg_inv_def e by simp
qed

lemma agg_inv_step:
  assumes inv: "agg_inv L A t0 counts entry (\<lambda>i. Reaction (F i) (G i) (L + length cs + 1 + i)) cs s"
    and quiet: "microtasks s = []"
    and nt: "next_timer (timers s) = Some (t, rest)"
    and handler: "\<And>k s. k < length cs \<Longrightarrow>
        call_handler (if fails_of (cs ! k) then G k else F k) (payload_of (cs ! k)) s
          = (Normal Undefined,
             if counts (cs ! k) then store_element A k (entry (cs ! k)) s
             else reject (L + length cs) (payload_of (cs ! k)) s)"
  shows "agg_inv L A t0 counts entry (\<lambda>i. Reaction (F i) (G i) (L + length cs + 1 + i)) cs
           (drain (fire t (s\<lparr>timers := rest\<rparr>)))
       \<and> microtasks (drain (fire t (s\<lparr>timers := rest\<rparr>))) = []"
proof (cases "task_pid (snd t) < L")
  case True
  from inv have "others_ok L A s" by (simp add: agg_inv_def inflight_def)
  from foreign_turn [OF this nt True]
  have f: "others_ok L A (drain (fire t (s\<lparr>timers := rest\<rparr>)))"
      "same_above L A s (drain (fire t (s\<lparr>timers := rest\<rparr>)))"
      "microtasks (drain (fire t (s\<lparr>timers := rest\<rparr>))) = []"
    by simp_all
  from agg_inv_stable [OF inv f(2) f(1)] f(3) show ?thesis by simp
next
  case False
  then have mine: "L \<le> task_pid (snd t)" by simp
  let ?n = "length cs"
  let ?H = "\<lambda>i. Reaction (F i) (G i) (L + ?n + 1 + i)"
  let ?fired = "\<lambda>s i. timer_at L t0 cs i \<notin> set (ours L s)"
  from inv have fl: "inflight L A t0 ?H cs s" and la: "length (aggs s) = A + 1"
    by (simp_all add: agg_inv_def)
  define g where "g = aggs s ! A"
  from inv have g: "length (vals g) = ?n" "length (called g) = ?n" "result g = L + ?n"
    and uncalled: "\<forall>i<?n. timer_at L t0 cs i \<in> set (ours L s) \<longrightarrow> \<not> called g ! i"
    and stored: "\<forall>i<?n. ?fired s i \<and> counts (cs ! i) \<longrightarrow> vals g ! i = entry (cs ! i)"
    and regA: "(\<forall>i<?n. ?fired s i \<longrightarrow> counts (cs ! i)) \<Longrightarrow>
                 remaining g = int (length (ours L s))
               \<and> status (promises s ! (L + ?n)) = (if ours L s = [] then Fulfilled (Arr (vals g)) else Pending)"
    by (auto simp: agg_inv_def g_def)
  from inv have regB: "(\<exists>i<?n. ?fired s i \<and> \<not> counts (cs ! i)) \<Longrightarrow>
          (\<exists>i<?n. ?fired s i \<and> \<not> counts (cs ! i)
              \<and> status (promises s ! (L + ?n)) = Rejected (payload_of (cs ! i)))"
    by (simp add: agg_inv_def)
  from macro_step [of L A t0 F G, OF fl quiet nt mine]
  obtain k where k: "k < ?n" "t = timer_at L t0 cs k" "timer_at L t0 cs k \<in> set (ours L s)"
    and rest: "ours L (s\<lparr>timers := rest\<rparr>) = remove1 t (ours L s)"
    and dr: "drain (fire t (s\<lparr>timers := rest\<rparr>))
         = drain (run_job (Job (if fails_of (cs ! k) then G k else F k) (payload_of (cs ! k))
                               (L + ?n + 1 + k))
                   (s\<lparr>timers := rest,
                      now := max (now s) (t0 + due_of (cs ! k)),
                      promises := (promises s)[L + k := Promise (outcome_of (cs ! k)) []],
                      microtasks := [],
                      trace := trace s @ [Settled (max (now s) (t0 + due_of (cs ! k))) (L + k)
                                            (outcome_of (cs ! k))]\<rparr>))"
    by blast
  define sa where "sa = s\<lparr>timers := rest,
                      now := max (now s) (t0 + due_of (cs ! k)),
                      promises := (promises s)[L + k := Promise (outcome_of (cs ! k)) []],
                      microtasks := [],
                      trace := trace s @ [Settled (max (now s) (t0 + due_of (cs ! k))) (L + k)
                                            (outcome_of (cs ! k))]\<rparr>"
  define s1 where "s1 = (if counts (cs ! k) then store_element A k (entry (cs ! k)) sa
                         else reject (L + ?n) (payload_of (cs ! k)) sa)"
  define s' where "s' = resolve (L + ?n + 1 + k) Undefined s1"
  have job: "run_job (Job (if fails_of (cs ! k) then G k else F k) (payload_of (cs ! k)) (L + ?n + 1 + k)) sa = s'"
    using handler [OF k(1), of sa] by (simp add: s'_def s1_def)
  from fl k have len: "length (promises s) = L + 2 * ?n + 1"
    and pd: "promises s ! (L + ?n + 1 + k) = Promise Pending []"
    and rn: "reactions (promises s ! (L + ?n)) = []"
    and d: "distinct (ours L s)"
    by (simp_all add: inflight_def)
  have ck: "\<not> called g ! k" using uncalled k by simp
  have sa: "aggs sa ! A = g" "A < length (aggs sa)" "aggs sa = aggs s"
    "promises sa = (promises s)[L + k := Promise (outcome_of (cs ! k)) []]"
    "microtasks sa = []" "ours L sa = remove1 t (ours L s)"
    using rest la by (simp_all add: sa_def g_def ours_def)
  note se = store_element_fields [OF sa(1,2) ck]
  have dist: "length (remove1 t (ours L s)) = length (ours L s) - 1" "ours L s \<noteq> []"
    using k(2,3) by (auto simp: length_remove1)
  have o': "ours L s' = remove1 (timer_at L t0 cs k) (ours L s)"
    using sa(6) k(2) by (simp add: s'_def s1_def se)
  have fired': "\<And>i. ?fired s' i \<longleftrightarrow> ?fired s i \<or> i = k"
    using o' d timer_at_inj [of L t0 cs _ k] by auto
  have s1_fields: "microtasks s1 = []" "length (promises s1) = length (promises s)"
      "promises s1 ! (L + k) = Promise (outcome_of (cs ! k)) []"
      "promises s1 ! (L + ?n + 1 + k) = Promise Pending []"
      "\<forall>i. i \<noteq> L + k \<and> i \<noteq> L + ?n \<longrightarrow> promises s1 ! i = promises s ! i"
      "reactions (promises s1 ! (L + ?n)) = []"
    using len pd rn k(1) g(3)
    by (simp_all add: s1_def se reject_fields sa is_pending_def nth_list_update)
  have fields: "microtasks s' = []" "length (promises s') = length (promises s)"
      "promises s' ! (L + k) = Promise (outcome_of (cs ! k)) []"
      "promises s' ! (L + ?n + 1 + k) = Promise (Fulfilled Undefined) []"
      "\<forall>i. i \<noteq> L + k \<and> i \<noteq> L + ?n + 1 + k \<and> i \<noteq> L + ?n \<longrightarrow> promises s' ! i = promises s ! i"
      "reactions (promises s' ! (L + ?n)) = []"
    using s1_fields len k(1)
    by (simp_all add: s'_def resolve_fields is_pending_def nth_list_update)
  have aggs': "aggs s' = aggs s1"
    by (simp add: s'_def resolve_fields)
  have aggs_frame: "length (aggs s') = length (aggs s)" "\<forall>a<A. aggs s' ! a = aggs s ! a"
    by (simp_all add: aggs' s1_def se reject_fields sa)
  have fl': "inflight L A t0 ?H cs s'"
    using inflight_after [OF fl k(1,3) o' fields aggs_frame] .
  have la': "length (aggs s') = A + 1" using aggs_frame la by simp
  have stR: "status (promises s' ! (L + ?n)) = status (promises s1 ! (L + ?n))"
    using s1_fields len k(1)
    by (simp add: s'_def resolve_fields is_pending_def nth_list_update)
  have "agg_inv L A t0 counts entry ?H cs s'"
  proof (cases "counts (cs ! k)")
    case True
    define g' where "g' = Agg ((vals g)[k := entry (cs ! k)]) (remaining g - 1)
                              ((called g)[k := True]) (result g)"
    have a1: "aggs s' ! A = g'"
      using True la by (simp add: aggs' s1_def se sa g'_def)
    have r1: "status (promises s' ! (L + ?n))
              = (if remaining g = 1 \<and> status (promises s ! (L + ?n)) = Pending
                 then Fulfilled (Arr (vals g')) else status (promises s ! (L + ?n)))"
      using True len k(1) g(3)
      by (simp add: stR s1_def se sa is_pending_def nth_list_update g'_def)
    have "\<forall>i<?n. timer_at L t0 cs i \<in> set (ours L s') \<longrightarrow> \<not> called g' ! i"
    proof (intro allI impI)
      fix i assume i: "i < ?n" "timer_at L t0 cs i \<in> set (ours L s')"
      with fired' [of i] have "i \<noteq> k" "timer_at L t0 cs i \<in> set (ours L s)" by auto
      with uncalled i show "\<not> called g' ! i" by (simp add: g'_def)
    qed
    moreover have "\<forall>i<?n. ?fired s' i \<and> counts (cs ! i) \<longrightarrow> vals g' ! i = entry (cs ! i)"
    proof (intro allI impI)
      fix i assume i: "i < ?n" "?fired s' i \<and> counts (cs ! i)"
      show "vals g' ! i = entry (cs ! i)"
      proof (cases "i = k")
        case True
        then show ?thesis using k(1) g(1) by (simp add: g'_def)
      next
        case False
        with i fired' [of i] have "?fired s i" by simp
        with stored i False show ?thesis by (simp add: g'_def)
      qed
    qed
    moreover have "(\<forall>i<?n. ?fired s' i \<longrightarrow> counts (cs ! i)) \<longrightarrow>
                 remaining g' = int (length (ours L s'))
               \<and> status (promises s' ! (L + ?n))
                   = (if ours L s' = [] then Fulfilled (Arr (vals g')) else Pending)"
    proof
      assume "\<forall>i<?n. ?fired s' i \<longrightarrow> counts (cs ! i)"
      then have "\<forall>i<?n. ?fired s i \<longrightarrow> counts (cs ! i)" using fired' by simp
      from regA [OF this] dist o' k(2) show "remaining g' = int (length (ours L s'))
               \<and> status (promises s' ! (L + ?n))
                   = (if ours L s' = [] then Fulfilled (Arr (vals g')) else Pending)"
        by (cases "ours L s") (auto simp: r1 g'_def)
    qed
    moreover have "(\<exists>i<?n. ?fired s' i \<and> \<not> counts (cs ! i)) \<longrightarrow>
          (\<exists>i<?n. ?fired s' i \<and> \<not> counts (cs ! i)
              \<and> status (promises s' ! (L + ?n)) = Rejected (payload_of (cs ! i)))"
    proof
      assume "\<exists>i<?n. ?fired s' i \<and> \<not> counts (cs ! i)"
      then have "\<exists>i<?n. ?fired s i \<and> \<not> counts (cs ! i)" using fired' True by auto
      from regB [OF this] obtain i where "i < ?n" "?fired s i" "\<not> counts (cs ! i)"
        "status (promises s ! (L + ?n)) = Rejected (payload_of (cs ! i))" by blast
      then show "\<exists>i<?n. ?fired s' i \<and> \<not> counts (cs ! i)
              \<and> status (promises s' ! (L + ?n)) = Rejected (payload_of (cs ! i))"
        using fired' by (auto simp: r1)
    qed
    ultimately show ?thesis
      using fl' la' a1 g by (intro agg_invI [of _ _ _ _ _ _ g']) (simp_all add: g'_def)
  next
    case False
    have a1: "aggs s' ! A = g"
      using False by (simp add: aggs' s1_def reject_fields sa g_def)
    have r1: "status (promises s' ! (L + ?n))
              = (if status (promises s ! (L + ?n)) = Pending
                 then Rejected (payload_of (cs ! k)) else status (promises s ! (L + ?n)))"
      using False len k(1)
      by (simp add: stR s1_def reject_fields sa is_pending_def nth_list_update)
    have "\<forall>i<?n. timer_at L t0 cs i \<in> set (ours L s') \<longrightarrow> \<not> called g ! i"
      using uncalled fired' by auto
    moreover have "\<forall>i<?n. ?fired s' i \<and> counts (cs ! i) \<longrightarrow> vals g ! i = entry (cs ! i)"
      using stored fired' False by auto
    moreover have "\<not> (\<forall>i<?n. ?fired s' i \<longrightarrow> counts (cs ! i))"
      using fired' False k(1) by auto
    then have "(\<forall>i<?n. ?fired s' i \<longrightarrow> counts (cs ! i)) \<longrightarrow>
                 remaining g = int (length (ours L s'))
               \<and> status (promises s' ! (L + ?n))
                   = (if ours L s' = [] then Fulfilled (Arr (vals g)) else Pending)"
      by blast
    moreover have "\<exists>i<?n. ?fired s' i \<and> \<not> counts (cs ! i)
              \<and> status (promises s' ! (L + ?n)) = Rejected (payload_of (cs ! i))"
    proof (cases "\<exists>i<?n. ?fired s i \<and> \<not> counts (cs ! i)")
      case True
      from regB [OF this] obtain i where "i < ?n" "?fired s i" "\<not> counts (cs ! i)"
        "status (promises s ! (L + ?n)) = Rejected (payload_of (cs ! i))" by blast
      then show ?thesis using fired' by (auto simp: r1)
    next
      case no: False
      then have "\<forall>i<?n. ?fired s i \<longrightarrow> counts (cs ! i)" by blast
      from regA [OF this] dist have "status (promises s ! (L + ?n)) = Pending" by simp
      then show ?thesis using fired' False k(1) by (auto simp: r1)
    qed
    then have "(\<exists>i<?n. ?fired s' i \<and> \<not> counts (cs ! i)) \<longrightarrow>
          (\<exists>i<?n. ?fired s' i \<and> \<not> counts (cs ! i)
              \<and> status (promises s' ! (L + ?n)) = Rejected (payload_of (cs ! i)))"
      by blast
    ultimately show ?thesis
      using fl' la' a1 g by (intro agg_invI [of _ _ _ _ _ _ g]) simp_all
  qed
  moreover have "drain (fire t (s\<lparr>timers := rest\<rparr>)) = s'"
    unfolding dr using fields(1) job by (simp add: sa_def drain_Nil)
  ultimately show ?thesis using fields(1) by simp
qed

subsection \<open>The state after an aggregate call\<close>

lemma aggregate_sound:
  assumes s0: "sound s0"
    and ag: "aggregate F G (fst (fetch_each cs s0)) (snd (fetch_each cs s0)) = (r, s)"
  shows "r = length (promises s0) + length cs"
    and "agg_inv (length (promises s0)) (length (aggs s0)) (now s0) counts entry
           (\<lambda>i. Reaction (F (length (aggs s0)) i)
                           (G (length (aggs s0)) (length (promises s0) + length cs) i)
                           (length (promises s0) + length cs + 1 + i)) cs s"
proof -
  let ?L = "length (promises s0)" and ?A = "length (aggs s0)" and ?n = "length cs"
  let ?H = "\<lambda>i. Reaction (F ?A i) (G ?A (?L + ?n) i) (?L + ?n + 1 + i)"
  define s2 where "s2 = (snd (new_promise (snd (fetch_each cs s0))))
                          \<lparr>aggs := aggs s0 @ [Agg [] 1 [] (?L + ?n)]\<rparr>"
  define s3 where "s3 = attach_each (F ?A) (G ?A (?L + ?n)) ?A 0 [?L + 0 ..< ?L + ?n] s2"
  define g' where "g' = Agg (replicate ?n Undefined) (int ?n) (replicate ?n False) (?L + ?n)"
  define s4 where "s4 = s3\<lparr>aggs := (aggs s3)[?A := g']\<rparr>"
  have s2: "promises s2 = promises s0 @ replicate ?n (Promise Pending []) @ [Promise Pending []]"
    "aggs s2 = aggs s0 @ [Agg [] 1 [] (?L + ?n)]"
    "timers s2 = timers s0 @ map (timer_at ?L (now s0) cs) [0 ..< ?n]"
    "microtasks s2 = microtasks s0"
    by (simp_all add: s2_def fetch_each_at new_promise_def)
  have w: "wired ?H ?L ?n 0 s2"
    by (simp add: wired_def s2 nth_append)
  have a: "aggs s2 ! ?A = Agg (replicate 0 Undefined) (1 + int 0) (replicate 0 False) (?L + ?n)"
    "?A < length (aggs s2)"
    by (simp_all add: s2)
  from attach_each_wired [OF w a] have s3: "wired ?H ?L ?n ?n s3"
    "aggs s3 ! ?A = Agg (replicate ?n Undefined) (1 + int ?n) (replicate ?n False) (?L + ?n)"
    "length (aggs s3) = length (aggs s2)"
    "take ?A (aggs s3) = take ?A (aggs s2)"
    "take ?L (promises s3) = take ?L (promises s2)"
    "timers s3 = timers s2" "microtasks s3 = microtasks s2"
    by (simp_all add: s3_def)
  have eq: "aggregate F G (fst (fetch_each cs s0)) (snd (fetch_each cs s0))
            = (?L + ?n, if ?n = 0 then resolve (?L + ?n) (Arr []) s4 else s4)"
    using s3(2) [unfolded s3_def s2_def]
    by (simp add: aggregate_def fetch_each_at new_promise_def Let_def s2_def s3_def s4_def g'_def)
  from ag eq have r: "r = ?L + ?n" and s: "s = (if ?n = 0 then resolve (?L + ?n) (Arr []) s4 else s4)"
    by auto
  show "r = ?L + ?n" by (rule r)
  have w4: "wired ?H ?L ?n ?n s4" using s3(1) by (simp add: s4_def wired_def)
  have la4: "length (aggs s4) = ?A + 1" "aggs s4 ! ?A = g'"
    using s3(3) by (simp_all add: s4_def s2)
  have o4: "ours ?L s4 = map (timer_at ?L (now s0) cs) [0 ..< ?n]"
    using s0 unfolding s4_def ours_simps unfolding ours_def s3(6) s2
    by (simp add: sound_def ours_sound del: filter_append)
  have ok4: "others_ok ?L ?A s4"
    using s0 s3 w4 la4(1)
    by (intro others_ok_after) (simp_all add: s4_def s2 wired_def)
  have fl4: "inflight ?L ?A (now s0) ?H cs s4"
    using w4 o4 ok4 by (rule wired_inflight)
  have pn: "promises s4 ! (?L + ?n) = Promise Pending []"
    using w4 by (simp add: wired_def)
  show "agg_inv ?L ?A (now s0) counts entry ?H cs s"
  proof (cases "?n = 0")
    case False
    then have "ours ?L s4 \<noteq> []" by (simp add: o4)
    moreover have "\<And>i. i < ?n \<Longrightarrow> timer_at ?L (now s0) cs i \<in> set (ours ?L s4)"
      by (simp add: o4)
    ultimately show ?thesis
      using False fl4 pn la4 o4
      by (intro agg_invI [of _ _ _ _ _ _ g']) (simp_all add: s g'_def)
  next
    case True
    define s5 where "s5 = resolve ?L (Arr []) s4"
    have len: "length (promises s4) = ?L + 1" using w4 True by (simp add: wired_def)
    have pn0: "promises s4 ! ?L = Promise Pending []" using pn True by simp
    have s5: "promises s5 = (promises s4)[?L := Promise (Fulfilled (Arr [])) []]"
      "microtasks s5 = microtasks s4" "aggs s5 = aggs s4" "ours ?L s5 = ours ?L s4"
      using pn0 len by (simp_all add: s5_def resolve_fields is_pending_def)
    have ok5: "others_ok ?L ?A s5"
      using ok4 by (simp add: others_ok_def s5)
    have fl: "inflight ?L ?A (now s0) ?H cs s5"
      using True fl4 len ok5 by (simp add: inflight_def s5)
    have "status (promises s5 ! ?L) = Fulfilled (Arr [])"
      using len by (simp add: s5)
    then show ?thesis
      using True fl la4 o4
      by (intro agg_invI [of _ _ _ _ _ _ g']) (simp_all add: s s5 s5_def [symmetric] g'_def)
  qed
qed

subsection \<open>What the invariants say when the loop has run\<close>

lemma inflight_status:
  assumes "inflight L A t0 H cs s" and "i < length cs"
  shows "status (promises s ! (L + i))
         = (if timer_at L t0 cs i \<in> set (ours L s) then Pending else outcome_of (cs ! i))"
  using assms by (simp add: inflight_def)

lemma inflight_some_pending:
  assumes "inflight L A t0 H cs s"
  shows "ours L s \<noteq> [] \<longleftrightarrow> (\<exists>i<length cs. status (promises s ! (L + i)) = Pending)"
proof
  assume "ours L s \<noteq> []"
  then obtain t where t: "t \<in> set (ours L s)" by (cases "ours L s") auto
  with assms obtain i where "i < length cs" "t = timer_at L t0 cs i"
    by (auto simp: inflight_def)
  with t inflight_status [OF assms, of i]
  show "\<exists>i<length cs. status (promises s ! (L + i)) = Pending"
    by auto
next
  assume "\<exists>i<length cs. status (promises s ! (L + i)) = Pending"
  then obtain i where "i < length cs" "status (promises s ! (L + i)) = Pending" by blast
  with inflight_status [OF assms, of i] show "ours L s \<noteq> []"
    by (auto split: if_splits)
qed

lemma agg_inv_all_counted:
  assumes inv: "agg_inv L A t0 counts entry H cs s" and emp: "ours L s = []"
    and all: "\<forall>c \<in> set cs. counts c"
  shows "status (promises s ! (L + length cs)) = Fulfilled (Arr (map entry cs))"
proof -
  from inv obtain g where g: "length (vals g) = length cs"
    and stored: "\<forall>i<length cs. timer_at L t0 cs i \<notin> set (ours L s) \<and> counts (cs ! i) \<longrightarrow>
                 vals g ! i = entry (cs ! i)"
    and regA: "(\<forall>i<length cs. timer_at L t0 cs i \<notin> set (ours L s) \<longrightarrow> counts (cs ! i)) \<longrightarrow>
                 status (promises s ! (L + length cs))
                   = (if ours L s = [] then Fulfilled (Arr (vals g)) else Pending)"
    by (auto simp: agg_inv_def)
  have "vals g = map entry cs"
    using g stored emp all by (intro nth_equalityI) simp_all
  moreover have "status (promises s ! (L + length cs)) = Fulfilled (Arr (vals g))"
    using regA all emp by simp
  ultimately show ?thesis by simp
qed

lemma agg_inv_one_skipped:
  assumes inv: "agg_inv L A t0 counts entry H cs s" and emp: "ours L s = []"
    and k: "k < length cs" "\<not> counts (cs ! k)"
    and others: "\<forall>i<length cs. i \<noteq> k \<longrightarrow> counts (cs ! i)"
  shows "status (promises s ! (L + length cs)) = Rejected (payload_of (cs ! k))"
proof -
  from inv have "(\<exists>i<length cs. timer_at L t0 cs i \<notin> set (ours L s) \<and> \<not> counts (cs ! i)) \<longrightarrow>
          (\<exists>i<length cs. timer_at L t0 cs i \<notin> set (ours L s) \<and> \<not> counts (cs ! i)
              \<and> status (promises s ! (L + length cs)) = Rejected (payload_of (cs ! i)))"
    by (simp add: agg_inv_def)
  moreover have "\<exists>i<length cs. timer_at L t0 cs i \<notin> set (ours L s) \<and> \<not> counts (cs ! i)"
    using k emp by auto
  ultimately obtain i where "i < length cs" "\<not> counts (cs ! i)"
    "status (promises s ! (L + length cs)) = Rejected (payload_of (cs ! i))" by blast
  moreover from this others have "i = k" by blast
  ultimately show ?thesis by simp
qed

lemma fetch_each_pids:
  "i < length cs \<Longrightarrow> fst (fetch_each cs s) ! i = length (promises s) + i"
  by (simp add: fetch_each_at)

lemma all_handler:
  "call_handler (if fails_of c then RejectFn n else AllResolveElement A k) (payload_of c) s
     = (Normal Undefined,
        if \<not> fails_of c then store_element A k (payload_of c) s else reject n (payload_of c) s)"
  by simp

lemma allSettled_handler:
  "call_handler (if fails_of c then AllSettledRejectElement A k else AllSettledResolveElement A k)
      (payload_of c) s
     = (Normal Undefined,
        if True then store_element A k (settled_entry c) s else reject n (payload_of c) s)"
  by (simp add: settled_entry_def payload_of_def)

definition quiet :: "(state \<Rightarrow> bool) \<Rightarrow> state \<Rightarrow> bool" where
  "quiet I s \<longleftrightarrow> I s \<and> microtasks s = []"

lemma agg_inv_drain:
  assumes "agg_inv L A t0 counts entry H cs s"
  shows "quiet (agg_inv L A t0 counts entry H cs) (drain s)"
proof -
  from assms have "others_ok L A s" by (simp add: agg_inv_def inflight_def)
  from frame_drain [OF this] agg_inv_stable [OF assms] show ?thesis
    by (simp add: quiet_def)
qed

lemma all_of_inv:
  assumes s0: "sound s0" and rs: "all_of cs s0 = (r, s)"
  shows "r = length (promises s0) + length cs"
    and "quiet (agg_inv (length (promises s0)) (length (aggs s0)) (now s0)
           (\<lambda>c. \<not> fails_of c) payload_of
           (\<lambda>i. Reaction (AllResolveElement (length (aggs s0)) i)
                           (RejectFn (length (promises s0) + length cs))
                           (length (promises s0) + length cs + 1 + i)) cs)
           (run s)"
    and "timers (run s) = []"
proof -
  have a: "aggregate AllResolveElement (\<lambda>a r i. RejectFn r)
             (fst (fetch_each cs s0)) (snd (fetch_each cs s0)) = (r, s)"
    using rs by (simp add: all_of_def promise_all_def split_beta)
  note i = aggregate_sound(1) [OF s0 a]
    aggregate_sound(2) [OF s0 a, of "\<lambda>c. \<not> fails_of c" payload_of]
  show "r = length (promises s0) + length cs" by (rule i)
  let ?I = "quiet (agg_inv (length (promises s0)) (length (aggs s0)) (now s0)
           (\<lambda>c. \<not> fails_of c) payload_of
           (\<lambda>i. Reaction (AllResolveElement (length (aggs s0)) i)
                           (RejectFn (length (promises s0) + length cs))
                           (length (promises s0) + length cs + 1 + i)) cs)"
  have "?I (drain s)" using i(2) by (rule agg_inv_drain)
  then have "?I (run s) \<and> timers (run s) = []"
  proof (rule run_invariant)
    fix s t rest
    assume "?I s" and nt: "next_timer (timers s) = Some (t, rest)"
    then have a: "agg_inv (length (promises s0)) (length (aggs s0)) (now s0)
           (\<lambda>c. \<not> fails_of c) payload_of
           (\<lambda>i. Reaction (AllResolveElement (length (aggs s0)) i)
                           (RejectFn (length (promises s0) + length cs))
                           (length (promises s0) + length cs + 1 + i)) cs s"
      and q: "microtasks s = []"
      by (simp_all add: quiet_def)
    show "?I (drain (fire t (s\<lparr>timers := rest\<rparr>)))"
      unfolding quiet_def by (rule agg_inv_step [OF a q nt]) (rule all_handler)
  qed
  then show "?I (run s)" and "timers (run s) = []" by simp_all
qed

lemma allSettled_of_inv:
  assumes s0: "sound s0" and rs: "allSettled_of cs s0 = (r, s)"
  shows "r = length (promises s0) + length cs"
    and "quiet (agg_inv (length (promises s0)) (length (aggs s0)) (now s0)
           (\<lambda>c. True) settled_entry
           (\<lambda>i. Reaction (AllSettledResolveElement (length (aggs s0)) i)
                           (AllSettledRejectElement (length (aggs s0)) i)
                           (length (promises s0) + length cs + 1 + i)) cs)
           (run_for k s)"
    and "quiet (agg_inv (length (promises s0)) (length (aggs s0)) (now s0)
           (\<lambda>c. True) settled_entry
           (\<lambda>i. Reaction (AllSettledResolveElement (length (aggs s0)) i)
                           (AllSettledRejectElement (length (aggs s0)) i)
                           (length (promises s0) + length cs + 1 + i)) cs)
           (run s)"
    and "timers (run s) = []"
proof -
  have a: "aggregate AllSettledResolveElement (\<lambda>a r. AllSettledRejectElement a)
             (fst (fetch_each cs s0)) (snd (fetch_each cs s0)) = (r, s)"
    using rs by (simp add: allSettled_of_def promise_allSettled_def split_beta)
  note i = aggregate_sound(1) [OF s0 a]
    aggregate_sound(2) [OF s0 a, of "\<lambda>c. True" settled_entry]
  show "r = length (promises s0) + length cs" by (rule i)
  let ?I = "quiet (agg_inv (length (promises s0)) (length (aggs s0)) (now s0)
           (\<lambda>c. True) settled_entry
           (\<lambda>i. Reaction (AllSettledResolveElement (length (aggs s0)) i)
                           (AllSettledRejectElement (length (aggs s0)) i)
                           (length (promises s0) + length cs + 1 + i)) cs)"
  have d: "?I (drain s)" using i(2) by (rule agg_inv_drain)
  have step: "?I (drain (fire t (s\<lparr>timers := rest\<rparr>)))"
    if "?I s" and nt: "next_timer (timers s) = Some (t, rest)" for s t rest
  proof -
    from that have a: "agg_inv (length (promises s0)) (length (aggs s0)) (now s0)
           (\<lambda>c. True) settled_entry
           (\<lambda>i. Reaction (AllSettledResolveElement (length (aggs s0)) i)
                           (AllSettledRejectElement (length (aggs s0)) i)
                           (length (promises s0) + length cs + 1 + i)) cs s"
      and q: "microtasks s = []"
      by (simp_all add: quiet_def)
    show ?thesis
      unfolding quiet_def by (rule agg_inv_step [OF a q nt]) (rule allSettled_handler)
  qed
  show "?I (run_for k s)"
    using d by (rule run_for_invariant) (rule step)
  have "?I (run s) \<and> timers (run s) = []"
    using d by (rule run_invariant) (rule step)
  then show "?I (run s)" and "timers (run s) = []" by simp_all
qed

section \<open>Every operation keeps the state well-formed\<close>

lemma below_mono: "below L A h \<Longrightarrow> L \<le> L' \<Longrightarrow> A \<le> A' \<Longrightarrow> below L' A' h"
  by (cases h) auto

lemma job_below_mono: "job_below L A j \<Longrightarrow> L \<le> L' \<Longrightarrow> A \<le> A' \<Longrightarrow> job_below L' A' j"
  by (cases j) (auto intro: below_mono)

lemma reaction_below_mono:
  "reaction_below L A r \<Longrightarrow> L \<le> L' \<Longrightarrow> A \<le> A' \<Longrightarrow> reaction_below L' A' r"
  by (cases r) (auto intro: below_mono)

lemma event_below_mono: "event_below L e \<Longrightarrow> L \<le> L' \<Longrightarrow> event_below L' e"
  by (cases e) auto

lemma below_Suc:
  "job_below L A j \<Longrightarrow> job_below (Suc L) A j"
  "job_below L A j \<Longrightarrow> job_below L (Suc A) j"
  "reaction_below L A r \<Longrightarrow> reaction_below (Suc L) A r"
  "reaction_below L A r \<Longrightarrow> reaction_below L (Suc A) r"
  "event_below L e \<Longrightarrow> event_below (Suc L) e"
  by (auto intro: job_below_mono reaction_below_mono event_below_mono)

lemma sound_new_promise: "sound s \<Longrightarrow> sound (snd (new_promise s))"
  unfolding sound_def others_ok_def new_promise_def
  by (auto simp: nth_append less_Suc_eq below_Suc)

lemma sound_setTimeout:
  "sound s \<Longrightarrow> task_pid cb < length (promises s) \<Longrightarrow> sound (setTimeout cb d s)"
  unfolding sound_def others_ok_def setTimeout_def by auto

lemma length_new_promise [simp]:
  "length (promises (snd (new_promise s))) = Suc (length (promises s))"
  "aggs (snd (new_promise s)) = aggs s"
  "fst (new_promise s) = length (promises s)"
  by (simp_all add: new_promise_def)

lemma sound_fetchData: "sound s \<Longrightarrow> sound (snd (fetchData apiName delayArg shouldFailArg s))"
  unfolding fetchData_def Let_def split_beta
  by (simp add: sound_setTimeout sound_new_promise)

lemma length_fetchData [simp]:
  "length (promises (snd (fetchData apiName delayArg shouldFailArg s))) = Suc (length (promises s))"
  "aggs (snd (fetchData apiName delayArg shouldFailArg s)) = aggs s"
  by (simp_all add: fetchData_def Let_def split_beta setTimeout_def)

lemma sound_resolve: "sound s \<Longrightarrow> p < length (promises s) \<Longrightarrow> sound (resolve p v s)"
proof (cases "is_pending p s")
  case False
  assume "sound s" then show ?thesis using False by (simp add: resolve_def)
next
  case True
  assume s: "sound s" and p: "p < length (promises s)"
  let ?L = "length (promises s)" and ?A = "length (aggs s)"
  from s p have r: "\<forall>r \<in> set (reactions (promises s ! p)). reaction_below ?L ?A r"
    by (simp add: sound_def others_ok_def)
  have j: "job_below ?L ?A (case r of Reaction f g d \<Rightarrow> Job f v d)"
    if "r \<in> set (reactions (promises s ! p))" for r
    using r that by (cases r) auto
  show ?thesis
    using s p True j
    unfolding sound_def others_ok_def resolve_def
    by (auto simp: nth_list_update)
qed

lemma sound_reject: "sound s \<Longrightarrow> p < length (promises s) \<Longrightarrow> sound (reject p v s)"
proof (cases "is_pending p s")
  case False
  assume "sound s" then show ?thesis using False by (simp add: reject_def)
next
  case True
  assume s: "sound s" and p: "p < length (promises s)"
  let ?L = "length (promises s)" and ?A = "length (aggs s)"
  from s p have r: "\<forall>r \<in> set (reactions (promises s ! p)). reaction_below ?L ?A r"
    by (simp add: sound_def others_ok_def)
  have j: "job_below ?L ?A (case r of Reaction f g d \<Rightarrow> Job g v d)"
    if "r \<in> set (reactions (promises s ! p))" for r
    using r that by (cases r) auto
  show ?thesis
    using s p True j
    unfolding sound_def others_ok_def reject_def
    by (auto simp: nth_list_update)
qed

lemma sound_perform_then:
  assumes "sound s" and "p < length (promises s)" and "d < length (promises s)"
    and "below (length (promises s)) (length (aggs s)) f"
    and "below (length (promises s)) (length (aggs s)) g"
  shows "sound (perform_then p f g d s)"
  using assms unfolding sound_def others_ok_def perform_then_def
  by (cases "status (promises s ! p)") (auto simp: nth_list_update)

lemma length_perform_then [simp]:
  "length (promises (perform_then p f g d s)) = length (promises s)"
  "aggs (perform_then p f g d s) = aggs s"
  by (cases "status (promises s ! p)"; simp add: perform_then_def)+

lemma sound_promise_then:
  assumes "sound s" and "p < length (promises s)"
    and "below (Suc (length (promises s))) (length (aggs s)) f"
    and "below (Suc (length (promises s))) (length (aggs s)) g"
  shows "sound (snd (promise_then p f g s))"
  using assms unfolding promise_then_def split_beta Let_def
  by (simp add: sound_perform_then sound_new_promise)

lemma length_promise_then [simp]:
  "length (promises (snd (promise_then p f g s))) = Suc (length (promises s))"
  "aggs (snd (promise_then p f g s)) = aggs s"
  "fst (promise_then p f g s) = length (promises s)"
  by (simp_all add: promise_then_def split_beta Let_def)

lemma sound_basic_usage:
  assumes "sound s" and "p < length (promises s)"
  shows "sound (basic_usage p s)"
  using assms unfolding basic_usage_def promise_catch_def split_beta Let_def
  by (simp add: sound_promise_then)

lemma sound_fetch_each: "sound s \<Longrightarrow> sound (snd (fetch_each cs s))"
proof (induction cs arbitrary: s)
  case Nil
  then show ?case by simp
next
  case (Cons c cs)
  obtain n d f where c: "c = (n, d, f)" by (cases c)
  from Cons.IH [OF sound_fetchData [OF Cons.prems, of n d f]] show ?case
    by (simp add: c split_beta)
qed

lemma sound_race_each:
  assumes "sound s" and "r < length (promises s)" and "\<forall>p \<in> set ps. p < length (promises s)"
  shows "sound (race_each r ps s)"
  using assms
proof (induction ps arbitrary: s)
  case Nil
  then show ?case by simp
next
  case (Cons p ps)
  have "sound (snd (promise_then p (ResolveFn r) (RejectFn r) s))"
    using Cons.prems by (intro sound_promise_then) simp_all
  moreover have "r < length (promises (snd (promise_then p (ResolveFn r) (RejectFn r) s)))"
    "\<forall>q \<in> set ps. q < length (promises (snd (promise_then p (ResolveFn r) (RejectFn r) s)))"
    using Cons.prems by (auto simp: less_Suc_eq)
  ultimately have "sound (race_each r ps (snd (promise_then p (ResolveFn r) (RejectFn r) s)))"
    by (rule Cons.IH)
  then show ?case by simp
qed

lemma sound_aggs_update:
  assumes "sound s" and "a < length (aggs s)" and "result g < length (promises s)"
  shows "sound (s\<lparr>aggs := (aggs s)[a := g]\<rparr>)"
  using assms unfolding sound_def others_ok_def
  by (auto simp: nth_list_update)

lemma sound_aggs_append:
  assumes "sound s" and "result g < length (promises s)"
  shows "sound (s\<lparr>aggs := aggs s @ [g]\<rparr>)"
  using assms unfolding sound_def others_ok_def
  by (auto simp: nth_append less_Suc_eq below_Suc)

lemma sound_attach_each:
  assumes "sound s" and "a < length (aggs s)" and "\<forall>p \<in> set ps. p < length (promises s)"
    and "\<forall>i. below (length (promises s)) (length (aggs s)) (F i)
           \<and> below (length (promises s)) (length (aggs s)) (G i)"
  shows "sound (attach_each F G a i ps s)
       \<and> length (aggs (attach_each F G a i ps s)) = length (aggs s)
       \<and> length (promises s) \<le> length (promises (attach_each F G a i ps s))
       \<and> result (aggs (attach_each F G a i ps s) ! a) = result (aggs s ! a)"
  using assms
proof (induction ps arbitrary: s i)
  case Nil
  then show ?case by simp
next
  case (Cons p ps)
  let ?g = "Agg (vals (aggs s ! a) @ [Undefined]) (remaining (aggs s ! a) + 1)
                (called (aggs s ! a) @ [False]) (result (aggs s ! a))"
  define s1 where "s1 = s\<lparr>aggs := (aggs s)[a := ?g]\<rparr>"
  define s2 where "s2 = snd (promise_then p (F i) (G i) s1)"
  from Cons.prems have "result (aggs s ! a) < length (promises s)"
    by (simp add: sound_def others_ok_def)
  then have 1: "sound s1"
    unfolding s1_def using Cons.prems by (intro sound_aggs_update) simp_all
  have l1: "length (promises s1) = length (promises s)" "length (aggs s1) = length (aggs s)"
    "result (aggs s1 ! a) = result (aggs s ! a)"
    using Cons.prems(2) by (simp_all add: s1_def)
  have 2: "sound s2"
    unfolding s2_def using 1 Cons.prems l1
    by (intro sound_promise_then) (auto intro: below_mono)
  have l2: "length (promises s2) = Suc (length (promises s))" "aggs s2 = aggs s1"
    by (simp_all add: s2_def l1)
  have "\<forall>i. below (length (promises s2)) (length (aggs s2)) (F i)
           \<and> below (length (promises s2)) (length (aggs s2)) (G i)"
    using Cons.prems(4) by (auto simp: l2 l1 intro: below_mono)
  moreover have "a < length (aggs s2)" "\<forall>q \<in> set ps. q < length (promises s2)"
    using Cons.prems by (auto simp: l1 l2 less_Suc_eq)
  ultimately have "sound (attach_each F G a (Suc i) ps s2)
       \<and> length (aggs (attach_each F G a (Suc i) ps s2)) = length (aggs s2)
       \<and> length (promises s2) \<le> length (promises (attach_each F G a (Suc i) ps s2))
       \<and> result (aggs (attach_each F G a (Suc i) ps s2) ! a) = result (aggs s2 ! a)"
    using 2 by (intro Cons.IH) simp_all
  then show ?case
    using l1 l2 by (simp add: Let_def split_beta s1_def [symmetric] s2_def [symmetric])
qed

lemma fetch_each_pids_below:
  "\<forall>p \<in> set (fst (fetch_each cs s)). p < length (promises (snd (fetch_each cs s)))"
  by (simp add: fetch_each_at)

lemma sound_aggregate:
  assumes s: "sound s" and ps: "\<forall>p \<in> set ps. p < length (promises s)"
    and h: "\<forall>i. below (Suc (length (promises s))) (Suc (length (aggs s))) (F (length (aggs s)) i)
              \<and> below (Suc (length (promises s))) (Suc (length (aggs s)))
                   (G (length (aggs s)) (length (promises s)) i)"
  shows "sound (snd (aggregate F G ps s))"
proof -
  let ?L = "length (promises s)" and ?A = "length (aggs s)"
  define s2 where "s2 = (snd (new_promise s))\<lparr>aggs := aggs s @ [Agg [] 1 [] ?L]\<rparr>"
  define s3 where "s3 = attach_each (F ?A) (G ?A ?L) ?A 0 ps s2"
  define g' where "g' = Agg (vals (aggs s3 ! ?A)) (remaining (aggs s3 ! ?A) - 1)
                            (called (aggs s3 ! ?A)) (result (aggs s3 ! ?A))"
  define s4 where "s4 = s3\<lparr>aggs := (aggs s3)[?A := g']\<rparr>"
  have eq: "snd (aggregate F G ps s)
            = (if remaining g' = 0 then resolve ?L (Arr (vals g')) s4 else s4)"
    by (simp add: aggregate_def new_promise_def Let_def s2_def s3_def s4_def g'_def)
  have 2: "sound s2"
    using sound_aggs_append [OF sound_new_promise [OF s], of "Agg [] 1 [] ?L"]
    by (simp add: s2_def)
  have l2: "length (promises s2) = Suc ?L" "length (aggs s2) = Suc ?A"
    "result (aggs s2 ! ?A) = ?L"
    by (simp_all add: s2_def)
  have "\<forall>p \<in> set ps. p < length (promises s2)" using ps by (auto simp: l2)
  from sound_attach_each [OF 2 _ this, of ?A "F ?A" "G ?A ?L" 0] h
  have 3: "sound s3" "length (aggs s3) = Suc ?A" "Suc ?L \<le> length (promises s3)"
    "result (aggs s3 ! ?A) = ?L"
    by (simp_all add: l2 s3_def)
  have 4: "sound s4"
    unfolding s4_def using 3 by (intro sound_aggs_update) (simp_all add: g'_def)
  have "length (promises s4) = length (promises s3)" by (simp add: s4_def)
  with 3 have "?L < length (promises s4)" by simp
  from sound_resolve [OF 4 this] 4 show ?thesis by (simp add: eq)
qed

lemma sound_all_of: "sound s \<Longrightarrow> sound (snd (all_of cs s))"
  unfolding all_of_def promise_all_def split_beta Let_def
  by (intro sound_aggregate sound_fetch_each fetch_each_pids_below) simp_all

lemma sound_allSettled_of: "sound s \<Longrightarrow> sound (snd (allSettled_of cs s))"
  unfolding allSettled_of_def promise_allSettled_def split_beta Let_def
  by (intro sound_aggregate sound_fetch_each fetch_each_pids_below) simp_all

lemma sound_race_of: "sound s \<Longrightarrow> sound (snd (race_of cs s))"
proof -
  assume s: "sound s"
  let ?s1 = "snd (fetch_each cs s)"
  have "sound (race_each (length (promises ?s1)) (fst (fetch_each cs s)) (snd (new_promise ?s1)))"
    using fetch_each_pids_below [of cs s]
    by (intro sound_race_each sound_new_promise sound_fetch_each s) auto
  then show ?thesis
    by (simp add: race_of_def promise_race_def split_beta Let_def)
qed

subsection \<open>Jobs and timer callbacks\<close>

lemma lengths_resolve [simp]:
  "length (promises (resolve p v s)) = length (promises s)"
  "length (promises (reject p v s)) = length (promises s)"
  "aggs (reject p v s) = aggs s"
  by (simp_all add: resolve_def reject_def)

lemma sound_store_element:
  assumes "sound s" and "a < length (aggs s)"
  shows "sound (store_element a i x s)"
proof -
  from assms have r: "result (aggs s ! a) < length (promises s)"
    by (simp add: sound_def others_ok_def)
  have u: "sound (s\<lparr>aggs := (aggs s)[a := g]\<rparr>)" if "result g = result (aggs s ! a)" for g
    using assms r that by (intro sound_aggs_update) simp_all
  have "sound (resolve (result (aggs s ! a)) v (s\<lparr>aggs := (aggs s)[a := g]\<rparr>))"
    if "result g = result (aggs s ! a)" for g v
    using u [OF that] r by (intro sound_resolve) simp_all
  with u assms(1) show ?thesis
    by (simp add: store_element_def Let_def)
qed

lemma lengths_store_element [simp]:
  "length (promises (store_element a i x s)) = length (promises s)"
  "length (aggs (store_element a i x s)) = length (aggs s)"
  by (simp_all add: store_element_def Let_def resolve_fields)

lemma sound_call_handler:
  assumes "sound s" and "below (length (promises s)) (length (aggs s)) h"
  shows "sound (snd (call_handler h v s))
       \<and> length (promises (snd (call_handler h v s))) = length (promises s)
       \<and> length (aggs (snd (call_handler h v s))) = length (aggs s)"
proof (cases h)
  case (Print l label)
  then show ?thesis using assms(1) by (simp add: sound_def others_ok_def)
qed (use assms in \<open>simp_all add: sound_resolve sound_reject sound_store_element resolve_fields\<close>)

lemma sound_run_job:
  assumes "sound s" and "job_below (length (promises s)) (length (aggs s)) j"
  shows "sound (run_job j s)
       \<and> length (promises (run_job j s)) = length (promises s)
       \<and> length (aggs (run_job j s)) = length (aggs s)"
proof (cases j)
  case (Job h v d)
  obtain c s' where c: "call_handler h v s = (c, s')" by (cases "call_handler h v s")
  from assms Job sound_call_handler [of s h v] c
  have s': "sound s'" "length (promises s') = length (promises s)" "length (aggs s') = length (aggs s)"
    and d: "d < length (promises s)"
    by simp_all
  show ?thesis
    using Job c s' d by (cases c) (simp_all add: sound_resolve sound_reject resolve_fields)
qed

lemma sound_drain:
  "sound s \<Longrightarrow> sound (drain s) \<and> length (promises (drain s)) = length (promises s)"
proof (induction s rule: drain.induct)
  case (1 s)
  show ?case
  proof (cases "microtasks s")
    case Nil
    then show ?thesis using "1.prems" by (simp add: drain.simps [of s])
  next
    case (Cons j js)
    have a: "sound (s\<lparr>microtasks := js\<rparr>)"
      and b: "job_below (length (promises s)) (length (aggs s)) j"
      using "1.prems" Cons by (simp_all add: sound_def others_ok_def)
    from sound_run_job [of "s\<lparr>microtasks := js\<rparr>" j] a b
    have c: "sound (run_job j (s\<lparr>microtasks := js\<rparr>))"
      "length (promises (run_job j (s\<lparr>microtasks := js\<rparr>))) = length (promises s)"
      by simp_all
    from "1.IH" [OF Cons c(1)] c(2) Cons show ?thesis
      by (simp add: drain.simps [of s])
  qed
qed

lemma sound_fire:
  assumes "sound s" and "next_timer (timers s) = Some (t, rest)"
  shows "sound (fire t (s\<lparr>timers := rest\<rparr>))"
proof -
  from next_timer_Some [OF assms(2)] have t: "t \<in> set (timers s)" "rest = remove1 t (timers s)"
    by simp_all
  then have sub: "set rest \<subseteq> set (timers s)" by (simp add: set_remove1_subset)
  obtain p n f where task: "snd t = FetchTimeout p n f" by (cases "snd t")
  from assms(1) t(1) task have p: "p < length (promises s)"
    by (auto simp: sound_def)
  have "sound (s\<lparr>timers := rest, now := max (now s) (fst t)\<rparr>)"
    using assms(1) sub by (auto simp: sound_def others_ok_def)
  then show ?thesis
    using p task by (simp add: fire_def sound_resolve sound_reject)
qed

lemma sound_run: "sound s \<Longrightarrow> sound (run s)"
proof -
  assume "sound s"
  then have "sound (drain s)" by (simp add: sound_drain)
  then have "sound (run s) \<and> timers (run s) = []"
  proof (rule run_invariant)
    fix s t rest
    assume "sound s" and "next_timer (timers s) = Some (t, rest)"
    then have "sound (fire t (s\<lparr>timers := rest\<rparr>))" by (rule sound_fire)
    then show "sound (drain (fire t (s\<lparr>timers := rest\<rparr>)))" by (simp add: sound_drain)
  qed
  then show ?thesis by simp
qed

lemma sound_first_statement: "sound first_statement"
  unfolding first_statement_def split_beta Let_def
  by (intro sound_basic_usage sound_fetchData sound_init)
     (simp add: fetchData_def split_beta Let_def setTimeout_def)

section \<open>The claims about the promise script\<close>

text \<open>
  Claim C1. For every name and every delay, in every state where the next promise
  identifier is unreferenced, the promise made by \<^verbatim>\<open>fetchData(name, delay, false)\<close> is
  fulfilled when the loop has run, its value is the name followed by \<open>'' data''\<close>, and its
  only settlement happens \<open>delay\<close> time units after the call, the delay being taken as
  the host's timer takes it (\<open>host_delay\<close>: unchanged from 1 to \<open>2^31 - 1\<close>). In particular
  \<^verbatim>\<open>fetchData("API 1", 500)\<close> at the start of the script settles at time 500 with
  \<open>''API 1 data''\<close>.
\<close>

theorem fetchData_succeeds:
  assumes "fresh (length (promises s)) s"
  shows "status_of (fst (fetchData apiName (Some delay) (Some False) s))
           (run (snd (fetchData apiName (Some delay) (Some False) s)))
          = Fulfilled (Str (apiName @ '' data''))
       \<and> settlements (fst (fetchData apiName (Some delay) (Some False) s))
           (trace (run (snd (fetchData apiName (Some delay) (Some False) s))))
          = [(now s + host_delay delay, Fulfilled (Str (apiName @ '' data'')))]
       \<and> status_of (fst (fetchData ''API 1'' (Some 500) None init))
           (run (snd (fetchData ''API 1'' (Some 500) None init)))
          = Fulfilled (Str ''API 1 data'')
       \<and> settlements (fst (fetchData ''API 1'' (Some 500) None init))
           (trace (run (snd (fetchData ''API 1'' (Some 500) None init))))
          = [(500, Fulfilled (Str ''API 1 data''))]"
  using fetchData_lifecycle(3,4) [OF assms, of apiName "Some delay" "Some False"]
    fetchData_lifecycle(3,4) [OF fresh_init [of "length (promises init)"], of "''API 1''" "Some 500" None]
  by (simp add: outcome_of_def fails_of_def due_of_def delay_of_def name_of_def init_def
      host_delay_def timeout_max_def)

theorem fetchData_succeeds_witness:
  "status_of 1 (run (snd (fetchData ''API 2'' (Some 0) (Some False)
        (snd (fetchData ''API 1'' (Some 500) None init)))))
     = Fulfilled (Str ''API 2 data'')
   \<and> settlements 1 (trace (run (snd (fetchData ''API 2'' (Some 0) (Some False)
        (snd (fetchData ''API 1'' (Some 500) None init))))))
     = [(1, Fulfilled (Str ''API 2 data''))]"
proof -
  have f: "fresh (length (promises (snd (fetchData ''API 1'' (Some 500) None init))))
             (snd (fetchData ''API 1'' (Some 500) None init))"
    by (simp add: fetchData_eq due_of_def timeout_max_def fresh_def untouched_def init_def)
  from fetchData_succeeds [OF f, of "''API 2''" 0] show ?thesis
    by (simp add: fetchData_eq due_of_def timeout_max_def init_def host_delay_def)
qed

text \<open>
  Claim C2. Under the same condition the promise made by \<^verbatim>\<open>fetchData(name, delay, true)\<close>
  is rejected when the loop has run, \<open>delay\<close> time units after the call (the delay as
  the host's timer takes it); the reason is the
  string \<open>''Error fetching data from ''\<close> followed by the name, a \<open>Str\<close> value and not an
  object.
\<close>

theorem fetchData_fails:
  assumes "fresh (length (promises s)) s"
  shows "status_of (fst (fetchData apiName (Some delay) (Some True) s))
           (run (snd (fetchData apiName (Some delay) (Some True) s)))
          = Rejected (Str (''Error fetching data from '' @ apiName))
       \<and> settlements (fst (fetchData apiName (Some delay) (Some True) s))
           (trace (run (snd (fetchData apiName (Some delay) (Some True) s))))
          = [(now s + host_delay delay, Rejected (Str (''Error fetching data from '' @ apiName)))]
       \<and> (\<forall>reason. status_of (fst (fetchData apiName (Some delay) (Some True) s))
                       (run (snd (fetchData apiName (Some delay) (Some True) s))) = Rejected reason
             \<longrightarrow> (\<exists>text. reason = Str text))"
  using fetchData_lifecycle(3,4) [OF assms, of apiName "Some delay" "Some True"]
  by (simp add: outcome_of_def fails_of_def due_of_def delay_of_def name_of_def)

theorem fetchData_fails_witness:
  "status_of 0 (run (snd (fetchData ''API 7'' (Some 1200) (Some True) init)))
     = Rejected (Str ''Error fetching data from API 7'')
   \<and> settlements 0 (trace (run (snd (fetchData ''API 7'' (Some 1200) (Some True) init))))
     = [(1200, Rejected (Str ''Error fetching data from API 7''))]"
  using fetchData_fails [OF fresh_init [of "length (promises init)"], of "''API 7''" 1200]
  by (simp add: fetchData_eq due_of_def timeout_max_def init_def host_delay_def timeout_max_def)

text \<open>
  Claim C3. \<^verbatim>\<open>Promise.all\<close> over an array of \<^verbatim>\<open>fetchData\<close> calls, made in any
  well-formed state (whatever else is in flight): when no call fails, the aggregate is
  fulfilled with the array of the calls' values in the order of the calls; when exactly one
  call fails, the aggregate is rejected with that call's reason, and every input still ends
  in its own outcome.
\<close>

theorem promise_all_outcome:
  assumes s0: "sound s0"
  shows "((\<forall>c \<in> set cs. \<not> fails_of c) \<longrightarrow>
      status_of (fst (all_of cs s0)) (run (snd (all_of cs s0)))
        = Fulfilled (Arr (map (\<lambda>c. Str (name_of c @ '' data'')) cs)))
   \<and> (\<forall>k<length cs. fails_of (cs ! k) \<and> (\<forall>i<length cs. i \<noteq> k \<longrightarrow> \<not> fails_of (cs ! i)) \<longrightarrow>
          status_of (fst (all_of cs s0)) (run (snd (all_of cs s0)))
            = Rejected (Str (''Error fetching data from '' @ name_of (cs ! k)))
        \<and> (\<forall>i<length cs. status_of (fst (fetch_each cs s0) ! i) (run (snd (all_of cs s0)))
                            = outcome_of (cs ! i)))"
proof -
  obtain r s where rs: "all_of cs s0 = (r, s)" by (cases "all_of cs s0")
  let ?L = "length (promises s0)" and ?A = "length (aggs s0)"
  let ?H = "\<lambda>i. Reaction (AllResolveElement ?A i) (RejectFn (?L + length cs)) (?L + length cs + 1 + i)"
  note i = all_of_inv [OF s0 rs]
  from i(2) have inv: "agg_inv ?L ?A (now s0) (\<lambda>c. \<not> fails_of c) payload_of ?H cs (run s)"
    by (simp add: quiet_def)
  have fin: "ours ?L (run s) = []" using i(3) by (simp add: ours_def)
  have fl: "inflight ?L ?A (now s0) ?H cs (run s)" using inv by (simp add: agg_inv_def)
  have a: "(\<forall>c \<in> set cs. \<not> fails_of c) \<longrightarrow>
      status_of r (run s) = Fulfilled (Arr (map (\<lambda>c. Str (name_of c @ '' data'')) cs))"
  proof
    assume ok: "\<forall>c \<in> set cs. \<not> fails_of c"
    from agg_inv_all_counted [OF inv fin ok]
    have "status_of r (run s) = Fulfilled (Arr (map payload_of cs))"
      by (simp add: status_of_def i(1))
    moreover have "map payload_of cs = map (\<lambda>c. Str (name_of c @ '' data'')) cs"
      using ok by (simp add: payload_of_def)
    ultimately show "status_of r (run s) = Fulfilled (Arr (map (\<lambda>c. Str (name_of c @ '' data'')) cs))"
      by simp
  qed
  have b: "\<forall>k<length cs. fails_of (cs ! k) \<and> (\<forall>i<length cs. i \<noteq> k \<longrightarrow> \<not> fails_of (cs ! i)) \<longrightarrow>
          status_of r (run s) = Rejected (Str (''Error fetching data from '' @ name_of (cs ! k)))
        \<and> (\<forall>i<length cs. status_of (fst (fetch_each cs s0) ! i) (run s) = outcome_of (cs ! i))"
  proof (intro allI impI)
    fix k assume k: "k < length cs"
      and f: "fails_of (cs ! k) \<and> (\<forall>i<length cs. i \<noteq> k \<longrightarrow> \<not> fails_of (cs ! i))"
    from f have f1: "\<not> \<not> fails_of (cs ! k)" and f2: "\<forall>i<length cs. i \<noteq> k \<longrightarrow> \<not> fails_of (cs ! i)"
      by simp_all
    from agg_inv_one_skipped [OF inv fin k f1 f2] f
    have "status_of r (run s) = Rejected (Str (''Error fetching data from '' @ name_of (cs ! k)))"
      by (simp add: status_of_def i(1) payload_of_def)
    moreover have "\<forall>i<length cs. status_of (fst (fetch_each cs s0) ! i) (run s) = outcome_of (cs ! i)"
      using inflight_status [OF fl] fin by (simp add: fetch_each_pids status_of_def)
    ultimately show "status_of r (run s) = Rejected (Str (''Error fetching data from '' @ name_of (cs ! k)))
        \<and> (\<forall>i<length cs. status_of (fst (fetch_each cs s0) ! i) (run s) = outcome_of (cs ! i))"
      by simp
  qed
  from a b show ?thesis by (simp add: rs)
qed

theorem promise_all_outcome_witness:
  "status_of (fst (all_of [(''API 3'', Some 1000, None), (''API 4'', Some 1500, None),
                           (''API 5'', Some 2000, None)] first_statement))
     (run (snd (all_of [(''API 3'', Some 1000, None), (''API 4'', Some 1500, None),
                        (''API 5'', Some 2000, None)] first_statement)))
     = Fulfilled (Arr [Str ''API 3 data'', Str ''API 4 data'', Str ''API 5 data''])
   \<and> status_of
       (fst (all_of [(''API 6'', Some 800, None), (''API 7'', Some 1200, Some True),
                     (''API 8'', Some 1000, None)]
              (snd (race_of [(''Fast API'', Some 500, None), (''Slower API'', Some 1000, None),
                             (''Slowest API'', Some 1500, None)]
                     (snd (all_of [(''API 3'', Some 1000, None), (''API 4'', Some 1500, None),
                                   (''API 5'', Some 2000, None)] first_statement))))))
       (run (snd (all_of [(''API 6'', Some 800, None), (''API 7'', Some 1200, Some True),
                     (''API 8'', Some 1000, None)]
              (snd (race_of [(''Fast API'', Some 500, None), (''Slower API'', Some 1000, None),
                             (''Slowest API'', Some 1500, None)]
                     (snd (all_of [(''API 3'', Some 1000, None), (''API 4'', Some 1500, None),
                                   (''API 5'', Some 2000, None)] first_statement)))))))
     = Rejected (Str ''Error fetching data from API 7'')"
proof -
  let ?ok = "[(''API 3'', Some 1000, None), (''API 4'', Some 1500, None), (''API 5'', Some 2000, None)]"
  let ?fast = "[(''Fast API'', Some 500, None), (''Slower API'', Some 1000, None),
                (''Slowest API'', Some 1500, None)]"
  let ?bad = "[(''API 6'', Some 800, None), (''API 7'', Some 1200, Some True), (''API 8'', Some 1000, None)]"
  let ?s = "snd (race_of ?fast (snd (all_of ?ok first_statement)))"
  have s: "sound ?s"
    by (intro sound_race_of sound_all_of sound_first_statement)
  have h1: "\<forall>c \<in> set ?ok. \<not> fails_of c"
    by (simp add: fails_of_def)
  have h2: "(1::nat) < length ?bad" by simp
  have h3: "fails_of (?bad ! 1) \<and> (\<forall>i<length ?bad. i \<noteq> 1 \<longrightarrow> \<not> fails_of (?bad ! i))"
    by (simp add: fails_of_def less_Suc_eq numeral_3_eq_3)
  from promise_all_outcome [OF sound_first_statement, of ?ok] h1
  have a: "status_of (fst (all_of ?ok first_statement)) (run (snd (all_of ?ok first_statement)))
        = Fulfilled (Arr (map (\<lambda>c. Str (name_of c @ '' data'')) ?ok))"
    by blast
  from promise_all_outcome [OF s, of ?bad] h2 h3
  have b: "status_of (fst (all_of ?bad ?s)) (run (snd (all_of ?bad ?s)))
        = Rejected (Str (''Error fetching data from '' @ name_of (?bad ! 1)))"
    by blast
  from a b show ?thesis by (simp add: name_of_def)
qed




text \<open>
  Claim C5. \<^verbatim>\<open>Promise.allSettled\<close> over an array of \<^verbatim>\<open>fetchData\<close> calls, made in any
  well-formed state: the aggregate is fulfilled with one entry per call, in the order of
  the calls, \<open>{status: "fulfilled", value}\<close> for a call that succeeds and
  \<open>{status: "rejected", reason}\<close> for one that fails; and at every point of the run the
  aggregate is pending exactly as long as some input is pending.
\<close>

theorem promise_allSettled_outcome:
  assumes s0: "sound s0"
  shows "status_of (fst (allSettled_of cs s0)) (run (snd (allSettled_of cs s0)))
     = Fulfilled (Arr (map settled_entry cs))
   \<and> (\<forall>k. (status_of (fst (allSettled_of cs s0)) (run_for k (snd (allSettled_of cs s0))) = Pending)
          \<longleftrightarrow> (\<exists>i<length cs. status_of (fst (fetch_each cs s0) ! i)
                                  (run_for k (snd (allSettled_of cs s0))) = Pending))"
proof -
  obtain r s where rs: "allSettled_of cs s0 = (r, s)" by (cases "allSettled_of cs s0")
  let ?L = "length (promises s0)" and ?A = "length (aggs s0)"
  let ?H = "\<lambda>i. Reaction (AllSettledResolveElement ?A i) (AllSettledRejectElement ?A i)
                   (?L + length cs + 1 + i)"
  note i = allSettled_of_inv [OF s0 rs]
  from i(3) have inv: "agg_inv ?L ?A (now s0) (\<lambda>c. True) settled_entry ?H cs (run s)"
    by (simp add: quiet_def)
  have fin: "ours ?L (run s) = []" using i(4) by (simp add: ours_def)
  have a: "status_of r (run s) = Fulfilled (Arr (map settled_entry cs))"
    using agg_inv_all_counted [OF inv fin] by (simp add: status_of_def i(1))
  have b: "(status_of r (run_for k s) = Pending)
          \<longleftrightarrow> (\<exists>i<length cs. status_of (fst (fetch_each cs s0) ! i) (run_for k s) = Pending)" for k
  proof -
    from i(2) [of k] have inv: "agg_inv ?L ?A (now s0) (\<lambda>c. True) settled_entry ?H cs (run_for k s)"
      by (simp add: quiet_def)
    then have fl: "inflight ?L ?A (now s0) ?H cs (run_for k s)" by (simp add: agg_inv_def)
    from inv have "status (promises (run_for k s) ! (?L + length cs)) = Pending
                   \<longleftrightarrow> ours ?L (run_for k s) \<noteq> []"
      by (auto simp: agg_inv_def)
    with inflight_some_pending [OF fl] show ?thesis
      by (auto simp: status_of_def i(1) fetch_each_pids)
  qed
  from a b show ?thesis by (simp add: rs)
qed

theorem promise_allSettled_outcome_witness:
  "status_of
     (fst (allSettled_of [(''API 9'', Some 1000, None), (''API 10'', Some 500, Some True),
                          (''API 11'', Some 1500, None)]
            (snd (all_of [(''API 6'', Some 800, None), (''API 7'', Some 1200, Some True),
                          (''API 8'', Some 1000, None)] first_statement))))
     (run (snd (allSettled_of [(''API 9'', Some 1000, None), (''API 10'', Some 500, Some True),
                               (''API 11'', Some 1500, None)]
            (snd (all_of [(''API 6'', Some 800, None), (''API 7'', Some 1200, Some True),
                          (''API 8'', Some 1000, None)] first_statement)))))
     = Fulfilled (Arr [Obj [(''status'', Str ''fulfilled''), (''value'', Str ''API 9 data'')],
                       Obj [(''status'', Str ''rejected''),
                            (''reason'', Str ''Error fetching data from API 10'')],
                       Obj [(''status'', Str ''fulfilled''), (''value'', Str ''API 11 data'')]])"
proof -
  let ?bad = "[(''API 6'', Some 800, None), (''API 7'', Some 1200, Some True), (''API 8'', Some 1000, None)]"
  have s: "sound (snd (all_of ?bad first_statement))"
    by (intro sound_all_of sound_first_statement)
  from promise_allSettled_outcome [OF s,
      of "[(''API 9'', Some 1000, None), (''API 10'', Some 500, Some True), (''API 11'', Some 1500, None)]"]
  show ?thesis
    by (simp add: settled_entry_def fails_of_def name_of_def)
qed

text \<open>
  Claim C7. In every state where the next promise identifier is unreferenced, the promise
  made by a \<^verbatim>\<open>fetchData\<close> call has at most one settlement event at every point of the run,
  its state is never anything but pending or the one outcome its arguments determine, and
  when the loop has run it has exactly one settlement event. With the script's
  \<^verbatim>\<open>then\<close>/\<^verbatim>\<open>catch\<close> observers attached, the trace starts with that settlement and the
  observer's line comes after it.
\<close>

theorem fetchData_settles_once:
  assumes "fresh (length (promises s)) s"
  shows "(\<forall>k. length (settlements (fst (fetchData apiName delayArg shouldFailArg s))
                   (trace (run_for k (snd (fetchData apiName delayArg shouldFailArg s))))) \<le> 1
            \<and> status_of (fst (fetchData apiName delayArg shouldFailArg s))
                   (run_for k (snd (fetchData apiName delayArg shouldFailArg s)))
                 \<in> {Pending, outcome_of (apiName, delayArg, shouldFailArg)})
       \<and> settlements (fst (fetchData apiName delayArg shouldFailArg s))
           (trace (run (snd (fetchData apiName delayArg shouldFailArg s))))
          = [(now s + due_of (apiName, delayArg, shouldFailArg),
              outcome_of (apiName, delayArg, shouldFailArg))]
       \<and> trace (run (basic_usage (fst (fetchData apiName delayArg shouldFailArg init))
                                   (snd (fetchData apiName delayArg shouldFailArg init))))
          = (if fails_of (apiName, delayArg, shouldFailArg)
             then [Settled (due_of (apiName, delayArg, shouldFailArg)) 0
                     (Rejected (Str (''Error fetching data from '' @ apiName))),
                   Settled (due_of (apiName, delayArg, shouldFailArg)) 1
                     (Rejected (Str (''Error fetching data from '' @ apiName))),
                   Printed (due_of (apiName, delayArg, shouldFailArg)) ConsoleError
                     ''Failed to fetch data:'' [Str (''Error fetching data from '' @ apiName)],
                   Settled (due_of (apiName, delayArg, shouldFailArg)) 2 (Fulfilled Undefined)]
             else [Settled (due_of (apiName, delayArg, shouldFailArg)) 0
                     (Fulfilled (Str (apiName @ '' data''))),
                   Printed (due_of (apiName, delayArg, shouldFailArg)) ConsoleLog
                     ''Data received:'' [Str (apiName @ '' data'')],
                   Settled (due_of (apiName, delayArg, shouldFailArg)) 1 (Fulfilled Undefined),
                   Settled (due_of (apiName, delayArg, shouldFailArg)) 2 (Fulfilled Undefined)])"
proof -
  have "length (settlements (fst (fetchData apiName delayArg shouldFailArg s))
                   (trace (run_for k (snd (fetchData apiName delayArg shouldFailArg s))))) \<le> 1" for k
    using fetchData_lifecycle(6) [OF assms, of apiName delayArg shouldFailArg k] by simp
  then show ?thesis
    using fetchData_lifecycle(4,5) [OF assms, of apiName delayArg shouldFailArg]
      basic_usage_trace [of apiName delayArg shouldFailArg]
    by simp
qed

theorem fetchData_settles_once_witness:
  "settlements 0 (trace (run (snd (fetchData ''API 1'' (Some 500) None init))))
     = [(500, Fulfilled (Str ''API 1 data''))]
   \<and> trace (run (basic_usage 0 (snd (fetchData ''API 1'' (Some 500) None init))))
     = [Settled 500 0 (Fulfilled (Str ''API 1 data'')),
        Printed 500 ConsoleLog ''Data received:'' [Str ''API 1 data''],
        Settled 500 1 (Fulfilled Undefined),
        Settled 500 2 (Fulfilled Undefined)]"
  using fetchData_settles_once [OF fresh_init [of "length (promises init)"], of "''API 1''" "Some 500" None]
  by (simp add: fetchData_eq due_of_def timeout_max_def init_def outcome_of_def fails_of_def due_of_def delay_of_def name_of_def
      host_delay_def timeout_max_def)

text \<open>
  Claim C8. For every delay, zero included, the promise is still pending when
  \<^verbatim>\<open>fetchData\<close> returns: the call records no event and leaves the callback in the timer
  list. Observers attached after the call has returned get their notification when the
  loop runs.
\<close>

theorem fetchData_never_synchronous:
  assumes "fresh (length (promises s)) s"
  shows "status_of (fst (fetchData apiName (Some delay) shouldFailArg s))
           (snd (fetchData apiName (Some delay) shouldFailArg s)) = Pending
       \<and> trace (snd (fetchData apiName (Some delay) shouldFailArg s)) = trace s
       \<and> (now s + host_delay delay,
            FetchTimeout (fst (fetchData apiName (Some delay) shouldFailArg s)) apiName
              (fails_of (apiName, Some delay, shouldFailArg)))
           \<in> set (timers (snd (fetchData apiName (Some delay) shouldFailArg s)))
       \<and> status_of (fst (fetchData apiName (Some 0) shouldFailArg s))
           (snd (fetchData apiName (Some 0) shouldFailArg s)) = Pending
       \<and> Printed (host_delay delay) (if fails_of (apiName, Some delay, shouldFailArg) then ConsoleError else ConsoleLog)
            (if fails_of (apiName, Some delay, shouldFailArg)
             then ''Failed to fetch data:'' else ''Data received:'')
            [payload_of (apiName, Some delay, shouldFailArg)]
           \<in> set (trace (run (basic_usage (fst (fetchData apiName (Some delay) shouldFailArg init))
                                            (snd (fetchData apiName (Some delay) shouldFailArg init)))))"
  using fetchData_lifecycle(2) [OF assms, of apiName "Some delay" shouldFailArg]
    fetchData_lifecycle(2) [OF assms, of apiName "Some 0" shouldFailArg]
    basic_usage_trace [of apiName "Some delay" shouldFailArg]
  by (simp add: fetchData_eq payload_of_def due_of_def delay_of_def name_of_def)

theorem fetchData_never_synchronous_witness:
  "status_of 0 (snd (fetchData ''API 1'' (Some 0) None init)) = Pending
   \<and> Printed 1 ConsoleLog ''Data received:'' [Str ''API 1 data'']
       \<in> set (trace (run (basic_usage 0 (snd (fetchData ''API 1'' (Some 0) None init)))))"
  using fetchData_never_synchronous [OF fresh_init [of "length (promises init)"], of "''API 1''" 0 None]
  by (simp add: fetchData_eq due_of_def timeout_max_def init_def fails_of_def payload_of_def name_of_def delay_of_def
      host_delay_def)

text \<open>
  Claim C9. \<^verbatim>\<open>fetchData(name)\<close> is \<^verbatim>\<open>fetchData(name, 1000, false)\<close>: the promise is
  fulfilled with the name followed by \<open>'' data''\<close>, 1000 time units after the call.
\<close>

theorem fetchData_defaults:
  assumes "fresh (length (promises s)) s"
  shows "fetchData apiName None None s = fetchData apiName (Some 1000) (Some False) s
       \<and> status_of (fst (fetchData apiName None None s)) (run (snd (fetchData apiName None None s)))
          = Fulfilled (Str (apiName @ '' data''))
       \<and> settlements (fst (fetchData apiName None None s))
           (trace (run (snd (fetchData apiName None None s))))
          = [(now s + 1000, Fulfilled (Str (apiName @ '' data'')))]"
  using fetchData_lifecycle(3,4) [OF assms, of apiName None None]
  by (simp add: outcome_of_def fails_of_def due_of_def delay_of_def name_of_def fetchData_def
      host_delay_def timeout_max_def)

theorem fetchData_defaults_witness:
  "fetchData ''API 2'' None None init = fetchData ''API 2'' (Some 1000) (Some False) init
   \<and> status_of 0 (run (snd (fetchData ''API 2'' None None init))) = Fulfilled (Str ''API 2 data'')
   \<and> settlements 0 (trace (run (snd (fetchData ''API 2'' None None init))))
       = [(1000, Fulfilled (Str ''API 2 data''))]"
  using fetchData_defaults [OF fresh_init [of "length (promises init)"], of "''API 2''"]
  by (simp add: fetchData_eq due_of_def timeout_max_def init_def delay_of_def fails_of_def)

section \<open>Properties of the counter factory\<close>

text \<open>
  Claim C6. A counter made by \<^verbatim>\<open>createCounter\<close> starts at 0; after increment, increment,
  decrement its value is 1, and after a further reset it is 0 (the script's own run prints
  1, 2, 1 and the reset line). A second counter, created later, is a different object, and
  no sequence of calls on either of the two changes the value of the other.
\<close>

theorem createCounter_behaviour:
  assumes "createCounter s = (a, s1)"
    and "createCounter (run_ops a xs s1) = (b, s2)"
  shows "count_of a s1 = 0
       \<and> count_of a (run_ops a [Increment, Increment, Decrement] s1) = 1
       \<and> count_of a (run_ops a [Increment, Increment, Decrement, Reset] s1) = 0
       \<and> console counter_demo =
           [(''Current count:'', [1]), (''Current count:'', [2]),
            (''Current count:'', [1]), (''Counter reset.'', [])]
       \<and> a \<noteq> b
       \<and> count_of b (run_ops a ys s2) = count_of b s2
       \<and> count_of a (run_ops b ys s2) = count_of a s2"
proof -
  have a: "a < length (cells s1)" "count_of a s1 = 0"
    using createCounter_fresh [OF assms(1)] by simp_all
  have three: "count_of a (run_ops a [Increment, Increment, Decrement] s1) = 1"
    using a by (simp add: count_of_def increment_def decrement_def Let_def
        num_inc_def num_dec_def max_safe_def)
  have four: "count_of a (run_ops a [Increment, Increment, Decrement, Reset] s1) = 0"
    using a by (simp add: count_of_def increment_def decrement_def reset_def Let_def)
  have demo: "console counter_demo =
           [(''Current count:'', [1]), (''Current count:'', [2]),
            (''Current count:'', [1]), (''Counter reset.'', [])]"
    by (simp add: counter_demo_def createCounter_def cinit_def increment_def decrement_def
        reset_def Let_def num_inc_def num_dec_def max_safe_def)
  have "a < length (cells (run_ops a xs s1))"
    using a by simp
  then have ab: "a \<noteq> b"
    using assms(2) by (auto simp: createCounter_def)
  from ab have "count_of b (run_ops a ys s2) = count_of b s2"
    by (simp add: count_of_run_ops_other)
  moreover from ab have "count_of a (run_ops b ys s2) = count_of a s2"
    by (simp add: count_of_run_ops_other)
  ultimately show ?thesis
    using a three four demo ab by simp
qed

theorem createCounter_behaviour_witness:
  "count_of 0 (snd (createCounter cinit)) = 0
   \<and> count_of 0 (run_ops 0 [Increment, Increment, Decrement] (snd (createCounter cinit))) = 1
   \<and> (0::nat) \<noteq> 1
   \<and> count_of 1 (run_ops 0 [Decrement, Reset]
        (snd (createCounter (run_ops 0 [Increment] (snd (createCounter cinit)))))) = 0
   \<and> count_of 0 (run_ops 1 [Decrement, Reset]
        (snd (createCounter (run_ops 0 [Increment] (snd (createCounter cinit)))))) = 1"
proof -
  have c1: "createCounter cinit = (0, snd (createCounter cinit))"
    by (simp add: createCounter_def cinit_def)
  have c2: "createCounter (run_ops 0 [Increment] (snd (createCounter cinit)))
            = (1, snd (createCounter (run_ops 0 [Increment] (snd (createCounter cinit)))))"
    by (simp add: createCounter_def cinit_def increment_def Let_def)
  have v: "count_of 1 (snd (createCounter (run_ops 0 [Increment] (snd (createCounter cinit))))) = 0"
    "count_of 0 (snd (createCounter (run_ops 0 [Increment] (snd (createCounter cinit))))) = 1"
    by (simp_all add: createCounter_def cinit_def increment_def Let_def count_of_def
        num_inc_def max_safe_def)
  show ?thesis
    using createCounter_behaviour [OF c1 c2, of "[Decrement, Reset]"] v by simp
qed

text \<open>
  Claim C10, as the code has it. From a counter at 0 (just created, or just reset), a
  sequence of increments and decrements during which the number of increments minus the
  number of decrements stays between \<open>-2^53\<close> and \<open>2^53\<close> (every sequence of at most
  \<open>2^53\<close> calls does, lemma \<open>short_sequences_safe\<close>) leaves the value at the number of
  increments minus the number of decrements; the value is not clamped at zero, and one
  decrement of a counter at 0 gives -1. The bound is needed: \<^verbatim>\<open>count\<close> is a double, and
  \<open>2^53 + 1\<close> increments of a fresh counter leave it at \<open>2^53\<close>.
\<close>

theorem counter_value_is_net:
  assumes "c < length (cells s)" and "count_of c s = 0" and "Reset \<notin> set xs"
    and "\<forall>k\<le>length xs.
           \<bar>int (count_list (take k xs) Increment) - int (count_list (take k xs) Decrement)\<bar> \<le> 2 ^ 53"
  shows "count_of c (run_ops c xs s)
           = int (count_list xs Increment) - int (count_list xs Decrement)
       \<and> count_of c (decrement c s) = - 1"
proof -
  have "\<forall>k\<le>length xs. \<bar>count_of c s + net (take k xs)\<bar> \<le> max_safe"
    using assms(2,4) by (simp add: net_def max_safe_def)
  with assms(1,3) have "count_of c (run_ops c xs s) = count_of c s + net xs"
    by (rule run_ops_exact)
  moreover have "count_of c (decrement c s) = - 1"
    using assms(1,2) by (simp add: count_of_decrement num_dec_def max_safe_def)
  ultimately show ?thesis
    using assms(2) by (simp add: net_def)
qed

theorem counter_value_is_net_witness:
  "count_of 0 (run_ops 0 [Decrement, Decrement, Increment] (snd (createCounter cinit))) = - 1
   \<and> count_of 0 (decrement 0 (snd (createCounter cinit))) = - 1"
proof -
  have h: "0 < length (cells (snd (createCounter cinit)))"
    "count_of 0 (snd (createCounter cinit)) = 0"
    by (simp_all add: createCounter_def cinit_def count_of_def)
  have r: "Reset \<notin> set [Decrement, Decrement, Increment]" by simp
  have "int (length [Decrement, Decrement, Increment]) \<le> max_safe"
    by (simp add: max_safe_def)
  from short_sequences_safe [OF this]
  have b: "\<forall>k\<le>length [Decrement, Decrement, Increment].
           \<bar>int (count_list (take k [Decrement, Decrement, Increment]) Increment)
            - int (count_list (take k [Decrement, Decrement, Increment]) Decrement)\<bar> \<le> 2 ^ 53"
    unfolding net_def max_safe_def .
  from counter_value_is_net [OF h r b] show ?thesis by simp
qed

theorem counter_value_unbounded_counterexample:
  "count_of 0 (run_ops 0 (replicate (2 ^ 53 + 1) Increment) (snd (createCounter cinit)))
     \<noteq> int (count_list (replicate (2 ^ 53 + 1) Increment) Increment)
       - int (count_list (replicate (2 ^ 53 + 1) Increment) Decrement)"
proof -
  have h: "0 < length (cells (snd (createCounter cinit)))"
    "count_of 0 (snd (createCounter cinit)) = 0"
    by (simp_all add: createCounter_def cinit_def count_of_def)
  have "count_of 0 (run_ops 0 (replicate (2 ^ 53 + 1) Increment) (snd (createCounter cinit)))
        = min (0 + int (2 ^ 53 + 1)) max_safe"
    using run_ops_increments [of 0 "snd (createCounter cinit)" "2 ^ 53 + 1"] h
    by (simp add: max_safe_def)
  then show ?thesis
    by (simp add: count_list_replicate max_safe_def)
qed

end
